theory Spec2Isabelle
  imports Main "HOL-Library.Multiset"
begin

section \<open>JavaScript values\<close>

text \<open>
  The values that reach the library.  An object carries its identity (\<open>ident\<close>, the
  address the runtime gave it), its prototype (\<open>None\<close> is JavaScript's \<open>null\<close>
  prototype) and its own enumerable properties in insertion order.  The engine forbids
  cyclic prototype chains, so a prototype is a sub-term of the object.  Functions are
  values \<open>VFun f\<close>: \<open>f\<close> is the identity of the function object, and what the function
  does when called is looked up in a table that each operation takes as a parameter.
  Numbers are restricted to the integers and \<open>NaN\<close>.
\<close>

datatype val =
    VUndefined
  | VNull
  | VBool bool
  | VNum int
  | VNaN
  | VStr string
  | VFun nat
  | VObj obj
and obj = Obj (ident: nat) (proto: "obj option") (props: "(string \<times> val) list")

text \<open>\<open>typeof v\<close>.\<close>

fun typeof :: "val \<Rightarrow> string" where
  "typeof VUndefined = ''undefined''"
| "typeof VNull = ''object''"
| "typeof (VBool b) = ''boolean''"
| "typeof (VNum n) = ''number''"
| "typeof VNaN = ''number''"
| "typeof (VStr s) = ''string''"
| "typeof (VFun f) = ''function''"
| "typeof (VObj ob) = ''object''"

text \<open>\<open>a === b\<close>: objects and functions are compared by identity, \<open>NaN\<close> equals nothing.\<close>

fun strict_eq :: "val \<Rightarrow> val \<Rightarrow> bool" where
  "strict_eq VUndefined VUndefined = True"
| "strict_eq VNull VNull = True"
| "strict_eq (VBool a) (VBool b) = (a = b)"
| "strict_eq (VNum a) (VNum b) = (a = b)"
| "strict_eq (VStr a) (VStr b) = (a = b)"
| "strict_eq (VFun a) (VFun b) = (a = b)"
| "strict_eq (VObj a) (VObj b) = (ident a = ident b)"
| "strict_eq _ _ = False"

text \<open>\<open>Object.getPrototypeOf\<close>, \<open>Object.keys\<close> and the property read \<open>ob[key]\<close>, which
  falls back on the prototype chain and yields \<open>undefined\<close> at its end.\<close>

definition getPrototypeOf :: "obj \<Rightarrow> obj option" where
  "getPrototypeOf ob = proto ob"

definition keys :: "obj \<Rightarrow> string list" where
  "keys ob = map fst (props ob)"

fun get_prop :: "obj \<Rightarrow> string \<Rightarrow> val" where
  "get_prop (Obj i None ps) k = (case map_of ps k of Some v \<Rightarrow> v | None \<Rightarrow> VUndefined)"
| "get_prop (Obj i (Some p) ps) k = (case map_of ps k of Some v \<Rightarrow> v | None \<Rightarrow> get_prop p k)"

section \<open>isPlainObject (src/utils/isPlainObject.js)\<close>

text \<open>The loop \<open>while (Object.getPrototypeOf(proto) !== null) proto = Object.getPrototypeOf(proto)\<close>,
  started at the object itself.\<close>

fun proto_walk :: "obj \<Rightarrow> obj" where
  "proto_walk (Obj i None ps) = Obj i None ps"
| "proto_walk (Obj i (Some p) ps) = proto_walk p"

definition isPlainObject :: "val \<Rightarrow> bool" where
  "isPlainObject v =
     (if typeof v \<noteq> ''object'' \<or> v = VNull then False
      else (case v of
              VObj ob \<Rightarrow>
                (case getPrototypeOf ob of
                   None \<Rightarrow> False
                 | Some p \<Rightarrow> ident p = ident (proto_walk ob))
            | _ \<Rightarrow> False))"

text \<open>
  The prototype chain of an object as a relation, for stating what the validator decides:
  \<open>on_chain ob t\<close> when \<open>t\<close> is reached from \<open>ob\<close> by following prototypes, and the
  terminus of the chain is the object on it that has the \<open>null\<close> prototype.
\<close>

inductive on_chain :: "obj \<Rightarrow> obj \<Rightarrow> bool" where
  here: "on_chain ob ob"
| up: "proto ob = Some p \<Longrightarrow> on_chain p t \<Longrightarrow> on_chain ob t"

definition chain_terminus :: "obj \<Rightarrow> obj \<Rightarrow> bool" where
  "chain_terminus ob t \<longleftrightarrow> on_chain ob t \<and> proto t = None"

section \<open>compose (src/compose.js)\<close>

text \<open>
  A JavaScript function of one argument, as the composer sees it: it is called with a
  value in a program state \<open>'s\<close> and either returns a value or throws, leaving a new
  state.  \<open>a(b(arg))\<close> calls \<open>b\<close> first and calls \<open>a\<close> on its result only when \<open>b\<close> has
  returned.
\<close>

type_synonym ('a, 's, 'e) jsfun = "'a \<Rightarrow> 's \<Rightarrow> ('e + 'a) \<times> 's"

definition compose :: "('a, 's, 'e) jsfun list \<Rightarrow> ('a, 's, 'e) jsfun" where
  "compose funcs =
     (if length funcs = 0 then (\<lambda>arg s. (Inr arg, s))
      else if length funcs = 1 then funcs ! 0
      else foldl (\<lambda>a b. (\<lambda>arg s. (case b arg s of
                                       (Inl e, s') \<Rightarrow> (Inl e, s')
                                     | (Inr r, s') \<Rightarrow> a r s')))
             (hd funcs) (tl funcs))"

text \<open>A function without effects, seen as a \<open>jsfun\<close>.\<close>

definition pure_fun :: "('a \<Rightarrow> 'a) \<Rightarrow> ('a, 's, 'e) jsfun" where
  "pure_fun F = (\<lambda>arg s. (Inr (F arg), s))"

section \<open>applyMiddleware\<close>

text \<open>\<open>xs.map(f)\<close> for a callback with effects: the calls run from left to right and stop
  at the first one that throws.\<close>

fun map_calls :: "('x \<Rightarrow> 's \<Rightarrow> ('e + 'y) \<times> 's) \<Rightarrow> 'x list \<Rightarrow> 's \<Rightarrow> ('e + 'y list) \<times> 's" where
  "map_calls f [] s = (Inr [], s)"
| "map_calls f (x # xs) s =
     (case f x s of
        (Inl e, s1) \<Rightarrow> (Inl e, s1)
      | (Inr y, s1) \<Rightarrow>
          (case map_calls f xs s1 of
             (Inl e, s2) \<Rightarrow> (Inl e, s2)
           | (Inr ys, s2) \<Rightarrow> (Inr (y # ys), s2)))"

text \<open>
  The enhancer's work after the base store exists:
  \<open>chain = middlewares.map(middleware => middleware(middlewareAPI))\<close> and
  \<open>dispatch = compose(...chain)(store.dispatch)\<close>; the result is the \<open>dispatch\<close> field of
  the store it returns.  The capability object \<open>middlewareAPI\<close> is a parameter: what its
  \<open>dispatch\<close> field forwards to is decided only after the chain is composed.
\<close>

definition applyMiddleware ::
  "'api \<Rightarrow> ('api \<Rightarrow> 's \<Rightarrow> ('e + ('d, 's, 'e) jsfun) \<times> 's) list \<Rightarrow> 'd \<Rightarrow> 's \<Rightarrow> ('e + 'd) \<times> 's" where
  "applyMiddleware middlewareAPI middlewares store_dispatch s =
     (case map_calls (\<lambda>middleware. middleware middlewareAPI) middlewares s of
        (Inl e, s1) \<Rightarrow> (Inl e, s1)
      | (Inr chain, s1) \<Rightarrow> compose chain store_dispatch s1)"

text \<open>A middleware that records its name when an action passes through it and hands
  the action to the next stage; the state is the record of names.\<close>

definition tracer ::
  "string \<Rightarrow> 'api \<Rightarrow> string list \<Rightarrow>
     ('e + ((val, string list, 'e) jsfun, string list, 'e) jsfun) \<times> string list" where
  "tracer name api s =
     (Inr (\<lambda>next s1. (Inr (\<lambda>action t. next action (t @ [name])), s1)), s)"

definition base_dispatch :: "(val, string list, 'e) jsfun" where
  "base_dispatch action t = (Inr action, t @ [''base''])"

section \<open>Errors and the runtime\<close>

text \<open>
  Every \<open>throw\<close> of the library is a constructor named after its message; \<open>TypeError\<close> is
  what the engine raises when a value that is not a function is called or a property
  that cannot be written is assigned, and \<open>Thrown v\<close> is a value thrown by the
  application's own code.  \<open>UndefinedState key d\<close> carries the description of the action
  in the message: \<open>Some t\<close> for \<open>action "t"\<close>, \<open>None\<close> for \<open>an action\<close>.
\<close>

datatype error =
    SeveralEnhancers
  | EnhancerNotFunction
  | ReducerNotFunction
  | GetStateWhileDispatching
  | ListenerNotFunction
  | SubscribeWhileDispatching
  | UnsubscribeWhileDispatching
  | ActionsMustBePlain
  | ActionTypeUndefined
  | ReducersMayNotDispatch
  | NextReducerNotFunction
  | UndefinedDuringInit string
  | UndefinedWhenProbed string
  | UndefinedState string "string option"
  | TypeError
  | Thrown val

text \<open>The test \<open>if (x)\<close> on a value, and on what a \<open>catch\<close> clause caught (an \<open>Error\<close>
  object is truthy).\<close>

fun truthy :: "val \<Rightarrow> bool" where
  "truthy VUndefined = False"
| "truthy VNull = False"
| "truthy (VBool b) = b"
| "truthy (VNum n) = (n \<noteq> 0)"
| "truthy VNaN = False"
| "truthy (VStr s) = (s \<noteq> [])"
| "truthy (VFun f) = True"
| "truthy (VObj ob) = True"

fun truthy_error :: "error \<Rightarrow> bool" where
  "truthy_error (Thrown v) = truthy v"
| "truthy_error _ = True"

text \<open>
  What the library reads from its surroundings.  \<open>Object_prototype\<close> is
  \<open>Object.prototype\<close> with its properties, the built-in methods among them, and
  \<open>hasOwnProperty_address\<close> is the identity of the built-in function
  \<open>Object.prototype.hasOwnProperty\<close>.  \<open>Function_prototype_address\<close> is the identity
  of \<open>Function.prototype\<close>.  \<open>NODE_ENV\<close> is \<open>process.env.NODE_ENV\<close> (any string other than
  \<open>production\<close> when it is not set).  \<open>to_String v\<close> is
  what \<open>String(v)\<close> gives; for an object it runs the conversion methods of the object,
  which may throw.  \<open>randomString\<close> gives the strings that successive calls of
  \<open>randomString()\<close> produce: the module of action types is loaded first, so the first
  string goes to \<open>INIT\<close> and the second to \<open>REPLACE\<close>; every later call of
  \<open>PROBE_UNKNOWN_ACTION\<close> takes the next one.
\<close>

record globals =
  Object_prototype :: obj
  randomString :: "nat \<Rightarrow> string"
  NODE_ENV :: string
  Function_prototype_address :: nat
  hasOwnProperty_address :: nat
  to_String :: "val \<Rightarrow> error + string"

text \<open>
  \<open>Function.prototype\<close>, and a function seen as an object, which is what it is when it
  stands on a prototype chain.  The functions of the application are as the function
  syntax makes them: their prototype is \<open>Function.prototype\<close>, and neither they nor
  \<open>Function.prototype\<close> have an enumerable property.
\<close>

definition Function_prototype :: "globals \<Rightarrow> obj" where
  "Function_prototype g = Obj (Function_prototype_address g) (Some (Object_prototype g)) []"

definition function_object :: "globals \<Rightarrow> nat \<Rightarrow> obj" where
  "function_object g f = Obj f (Some (Function_prototype g)) []"

text \<open>The surroundings are standard when \<open>Object.prototype\<close> ends every prototype chain
  it is on and is not \<open>Function.prototype\<close>.\<close>

definition standard :: "globals \<Rightarrow> bool" where
  "standard g \<longleftrightarrow>
     proto (Object_prototype g) = None
     \<and> ident (Object_prototype g) \<noteq> Function_prototype_address g"

text \<open>The part of the program state that the combinator touches: the identity the next
  allocation receives, and how often \<open>PROBE_UNKNOWN_ACTION\<close> has been called.\<close>

record runtime =
  next_ident :: nat
  probe_calls :: nat

definition INIT :: "globals \<Rightarrow> string" where
  "INIT g = ''@@redux/INIT'' @ randomString g 0"

definition REPLACE :: "globals \<Rightarrow> string" where
  "REPLACE g = ''@@redux/REPLACE'' @ randomString g 1"

definition PROBE_UNKNOWN_ACTION :: "globals \<Rightarrow> runtime \<Rightarrow> string \<times> runtime" where
  "PROBE_UNKNOWN_ACTION g w =
     (''@@redux/PROBE_UNKNOWN_ACTION'' @ randomString g (2 + probe_calls w),
      w\<lparr>probe_calls := Suc (probe_calls w)\<rparr>)"

text \<open>An object literal \<open>{ k1: v1, ... }\<close>: a new identity, prototype \<open>Object.prototype\<close>.\<close>

definition new_object :: "globals \<Rightarrow> (string \<times> val) list \<Rightarrow> runtime \<Rightarrow> obj \<times> runtime" where
  "new_object g ps w =
     (Obj (next_ident w) (Some (Object_prototype g)) ps, w\<lparr>next_ident := Suc (next_ident w)\<rparr>)"

text \<open>
  The assignment \<open>ob[key] = v\<close> in strict code, on an object built from a literal.  When
  the object has no own property \<open>key\<close> the engine looks for it along the prototype
  chain.  The objects of the application hold writable data properties; what the engine
  itself provides besides is the accessor \<open>__proto__\<close> of \<open>Object.prototype\<close>, the
  properties \<open>length\<close> and \<open>name\<close> of a function and of \<open>Function.prototype\<close>, which
  cannot be written, and the accessors \<open>caller\<close> and \<open>arguments\<close> of
  \<open>Function.prototype\<close>, whose setter throws.  \<open>find_slot g p key\<close> tells what the
  search meets first on the chain that starts at the prototype \<open>p\<close>.
\<close>

datatype slot = Absent | Data | ReadOnly | Setter

fun find_slot :: "globals \<Rightarrow> obj \<Rightarrow> string \<Rightarrow> slot" where
  "find_slot g (Obj i None ps) k =
     (if i = ident (Object_prototype g) \<and> k = ''__proto__'' then Setter
      else if k \<in> set (map fst ps) then Data
      else if i = Function_prototype_address g
              \<and> k \<in> {''length'', ''name'', ''caller'', ''arguments''} then ReadOnly
      else Absent)"
| "find_slot g (Obj i (Some p) ps) k =
     (if i = ident (Object_prototype g) \<and> k = ''__proto__'' then Setter
      else if k \<in> set (map fst ps) then Data
      else if i = Function_prototype_address g
              \<and> k \<in> {''length'', ''name'', ''caller'', ''arguments''} then ReadOnly
      else find_slot g p k)"

text \<open>
  An own property is overwritten in place; a property that is absent, or a data property
  of a prototype, makes a new own property, added last.  Assigning to a property that
  cannot be written throws a \<open>TypeError\<close>.  Assigning to the accessor \<open>__proto__\<close> never
  adds an own property: it replaces the prototype by the object, the function or
  \<open>null\<close> that is assigned and ignores every other value.  (The object assigned to is
  new, so that the new prototype chain cannot run into it.)
\<close>

fun put :: "string \<Rightarrow> val \<Rightarrow> (string \<times> val) list \<Rightarrow> (string \<times> val) list" where
  "put k v [] = [(k, v)]"
| "put k v ((k', v') # ps) = (if k' = k then (k, v) # ps else (k', v') # put k v ps)"

definition set_prop :: "globals \<Rightarrow> obj \<Rightarrow> string \<Rightarrow> val \<Rightarrow> error + obj" where
  "set_prop g ob k v =
     (case (if k \<in> set (keys ob) then Data
            else (case proto ob of None \<Rightarrow> Absent | Some p \<Rightarrow> find_slot g p k)) of
        ReadOnly \<Rightarrow> Inl TypeError
      | Setter \<Rightarrow>
          Inr (case v of
                 VObj p \<Rightarrow> Obj (ident ob) (Some p) (props ob)
               | VFun f \<Rightarrow> Obj (ident ob) (Some (function_object g f)) (props ob)
               | VNull \<Rightarrow> Obj (ident ob) None (props ob)
               | _ \<Rightarrow> ob)
      | _ \<Rightarrow> Inr (Obj (ident ob) (proto ob) (put k v (props ob))))"

section \<open>combineReducers\<close>

text \<open>
  A transition function of the application: called with the prior state and the action,
  it returns the next state or throws.  The table \<open>fns\<close> maps the identity of a function
  value to what it does with its two arguments (it does not read \<open>this\<close>); calling a
  value that is not a function is a \<open>TypeError\<close>.  The prior state handed to the
  combined reducer is a mapping or absent (\<open>None\<close> is \<open>undefined\<close>), and the argument of
  the combinator is a mapping; a mapping lists its own properties in the order in which
  \<open>Object.keys\<close> reports them.  \<open>warning(message)\<close> prints to the console and returns;
  the texts it prints are not modelled, what computing them does besides is.
\<close>

type_synonym reducers = "nat \<Rightarrow> val \<Rightarrow> val \<Rightarrow> error + val"

definition call_reducer :: "reducers \<Rightarrow> val \<Rightarrow> val \<Rightarrow> val \<Rightarrow> error + val" where
  "call_reducer fns f state action =
     (case f of VFun i \<Rightarrow> fns i state action | _ \<Rightarrow> Inl TypeError)"

text \<open>\<open>assertReducerShape\<close>: the body of \<open>forEach\<close> for one key, then the iteration.\<close>

definition assert_one :: "globals \<Rightarrow> reducers \<Rightarrow> obj \<Rightarrow> string \<Rightarrow> runtime \<Rightarrow> (error + unit) \<times> runtime" where
  "assert_one g fns reducers key w =
     (let reducer = get_prop reducers key;
          (a1, w1) = new_object g [(''type'', VStr (INIT g))] w
      in case call_reducer fns reducer VUndefined (VObj a1) of
           Inl e \<Rightarrow> (Inl e, w1)
         | Inr initialState \<Rightarrow>
             if typeof initialState = ''undefined'' then (Inl (UndefinedDuringInit key), w1)
             else
               (let (t, w2) = PROBE_UNKNOWN_ACTION g w1;
                    (a2, w3) = new_object g [(''type'', VStr t)] w2
                in case call_reducer fns reducer VUndefined (VObj a2) of
                     Inl e \<Rightarrow> (Inl e, w3)
                   | Inr probed \<Rightarrow>
                       if typeof probed = ''undefined'' then (Inl (UndefinedWhenProbed key), w3)
                       else (Inr (), w3)))"

fun assert_each :: "globals \<Rightarrow> reducers \<Rightarrow> obj \<Rightarrow> string list \<Rightarrow> runtime \<Rightarrow> (error + unit) \<times> runtime" where
  "assert_each g fns reducers [] w = (Inr (), w)"
| "assert_each g fns reducers (key # ks) w =
     (case assert_one g fns reducers key w of
        (Inl e, w') \<Rightarrow> (Inl e, w')
      | (Inr u, w') \<Rightarrow> assert_each g fns reducers ks w')"

definition assertReducerShape :: "globals \<Rightarrow> reducers \<Rightarrow> obj \<Rightarrow> runtime \<Rightarrow> (error + unit) \<times> runtime" where
  "assertReducerShape g fns reducers w = assert_each g fns reducers (keys reducers) w"

text \<open>What the closure \<open>combination\<close> captures.  \<open>shapeAssertionError = None\<close> is the
  variable left \<open>undefined\<close>.  The cache \<open>unexpectedKeyCache\<close> is left out: it only
  decides which warnings are printed.\<close>

record combined =
  finalReducers :: obj
  finalReducerKeys :: "string list"
  shapeAssertionError :: "error option"

text \<open>The first loop of \<open>combineReducers\<close>: a key is retained when its value is a
  function, by the assignment \<open>finalReducers[key] = reducers[key]\<close>.\<close>

fun retain :: "globals \<Rightarrow> obj \<Rightarrow> string list \<Rightarrow> obj \<Rightarrow> error + obj" where
  "retain g reducers [] final = Inr final"
| "retain g reducers (key # ks) final =
     (if typeof (get_prop reducers key) = ''function''
      then (case set_prop g final key (get_prop reducers key) of
              Inl e \<Rightarrow> Inl e
            | Inr final' \<Rightarrow> retain g reducers ks final')
      else retain g reducers ks final)"

text \<open>\<open>combineReducers\<close>.  The exception of the shape assertion is caught and kept; an
  exception of the first loop escapes.\<close>

definition combineReducers :: "globals \<Rightarrow> reducers \<Rightarrow> obj \<Rightarrow> runtime \<Rightarrow> (error + combined) \<times> runtime" where
  "combineReducers g fns reducers w =
     (let reducerKeys = keys reducers;
          (empty_object, w1) = new_object g [] w
      in case retain g reducers reducerKeys empty_object of
           Inl e \<Rightarrow> (Inl e, w1)
         | Inr final \<Rightarrow>
             (let (r, w2) = assertReducerShape g fns final w1
              in (Inr \<lparr> finalReducers = final,
                        finalReducerKeys = keys final,
                        shapeAssertionError = (case r of Inl e \<Rightarrow> Some e | Inr u \<Rightarrow> None) \<rparr>,
                  w2)))"

text \<open>
  \<open>getUndefinedStateErrorMessage(key, action)\<close>: the message describes the action by
  \<open>String(action.type)\<close> when \<open>action && action.type\<close> is truthy, and the conversion may
  throw.  The property \<open>type\<close> of a truthy value that is not an object is \<open>undefined\<close>.
\<close>

definition getUndefinedStateErrorMessage :: "globals \<Rightarrow> string \<Rightarrow> val \<Rightarrow> error + error" where
  "getUndefinedStateErrorMessage g key action =
     (let actionType =
            (if truthy action
             then (case action of VObj a \<Rightarrow> get_prop a ''type'' | _ \<Rightarrow> VUndefined)
             else action)
      in if truthy actionType
         then (case to_String g actionType of
                 Inl e \<Rightarrow> Inl e
               | Inr t \<Rightarrow> Inr (UndefinedState key (Some t)))
         else Inr (UndefinedState key None))"

text \<open>
  \<open>getUnexpectedStateShapeWarningMessage(inputState, reducers, action, unexpectedKeyCache)\<close>
  computes the text of a warning.  Besides, when there are retained reducers and the
  state is a plain object, its filter evaluates \<open>reducers.hasOwnProperty(key)\<close> for
  every key of the state in turn.  This is a method call on the mapping of the retained
  reducers: it runs \<open>Object.prototype.hasOwnProperty\<close> when the mapping inherits the
  method, and the reducer stored under the key \<open>hasOwnProperty\<close> when there is one,
  with the key as its state and no action.  An exception of that call escapes.  The
  cache of reported keys only decides what is printed.
\<close>

definition hasOwnProperty_call :: "globals \<Rightarrow> reducers \<Rightarrow> obj \<Rightarrow> string \<Rightarrow> error + val" where
  "hasOwnProperty_call g fns reducers key =
     (case get_prop reducers ''hasOwnProperty'' of
        VFun i \<Rightarrow>
          if i = hasOwnProperty_address g then Inr (VBool (key \<in> set (keys reducers)))
          else fns i (VStr key) VUndefined
      | _ \<Rightarrow> Inl TypeError)"

fun filter_keys :: "globals \<Rightarrow> reducers \<Rightarrow> obj \<Rightarrow> string list \<Rightarrow> error + unit" where
  "filter_keys g fns reducers [] = Inr ()"
| "filter_keys g fns reducers (key # ks) =
     (case hasOwnProperty_call g fns reducers key of
        Inl e \<Rightarrow> Inl e
      | Inr b \<Rightarrow> filter_keys g fns reducers ks)"

definition getUnexpectedStateShapeWarningMessage ::
  "globals \<Rightarrow> reducers \<Rightarrow> obj \<Rightarrow> obj \<Rightarrow> val \<Rightarrow> error + unit" where
  "getUnexpectedStateShapeWarningMessage g fns inputState reducers action =
     (if length (keys reducers) = 0 then Inr ()
      else if \<not> isPlainObject (VObj inputState) then Inr ()
      else filter_keys g fns reducers (keys inputState))"

text \<open>One turn of the loop of \<open>combination\<close>, on the pair \<open>(hasChanged, nextState)\<close>.\<close>

definition slice_result :: "reducers \<Rightarrow> combined \<Rightarrow> obj \<Rightarrow> val \<Rightarrow> string \<Rightarrow> error + val" where
  "slice_result fns c state action key =
     call_reducer fns (get_prop (finalReducers c) key) (get_prop state key) action"

fun slices :: "globals \<Rightarrow> reducers \<Rightarrow> combined \<Rightarrow> obj \<Rightarrow> val \<Rightarrow> string list \<Rightarrow> bool \<times> obj \<Rightarrow> error + bool \<times> obj" where
  "slices g fns c state action [] (hasChanged, nextState) = Inr (hasChanged, nextState)"
| "slices g fns c state action (key # ks) (hasChanged, nextState) =
     (let previousStateForKey = get_prop state key
      in case slice_result fns c state action key of
           Inl e \<Rightarrow> Inl e
         | Inr nextStateForKey \<Rightarrow>
             if typeof nextStateForKey = ''undefined''
             then (case getUndefinedStateErrorMessage g key action of
                     Inl e \<Rightarrow> Inl e
                   | Inr errorMessage \<Rightarrow> Inl errorMessage)
             else (case set_prop g nextState key nextStateForKey of
                     Inl e \<Rightarrow> Inl e
                   | Inr nextState' \<Rightarrow>
                       slices g fns c state action ks
                         (hasChanged \<or> \<not> strict_eq nextStateForKey previousStateForKey,
                          nextState')))"

text \<open>\<open>combination(state = {}, action)\<close>.  The diagnostic runs unless
  \<open>process.env.NODE_ENV\<close> is \<open>production\<close>.\<close>

definition combination ::
  "globals \<Rightarrow> reducers \<Rightarrow> combined \<Rightarrow> obj option \<Rightarrow> val \<Rightarrow> runtime \<Rightarrow> (error + obj) \<times> runtime" where
  "combination g fns c state_arg action w =
     (let (state, w0) = (case state_arg of None \<Rightarrow> new_object g [] w | Some s \<Rightarrow> (s, w))
      in case (case shapeAssertionError c of
                 Some e \<Rightarrow> if truthy_error e then Some e else None
               | None \<Rightarrow> None) of
           Some e \<Rightarrow> (Inl e, w0)
         | None \<Rightarrow>
             (case (if NODE_ENV g \<noteq> ''production''
                    then getUnexpectedStateShapeWarningMessage g fns state (finalReducers c) action
                    else Inr ()) of
                Inl e \<Rightarrow> (Inl e, w0)
              | Inr warningMessage \<Rightarrow>
                  (let (nextState, w1) = new_object g [] w0
                   in case slices g fns c state action (finalReducerKeys c) (False, nextState) of
                        Inl e \<Rightarrow> (Inl e, w1)
                      | Inr (hasChanged, nextState') \<Rightarrow>
                          (let hasChanged' =
                                 (hasChanged \<or> length (finalReducerKeys c) \<noteq> length (keys state))
                           in (Inr (if hasChanged' then nextState' else state), w1)))))"


text \<open>An object's own keys are pairwise different and none is \<open>__proto__\<close>.\<close>

definition own_ok :: "obj \<Rightarrow> bool" where
  "own_ok ob \<longleftrightarrow> distinct (keys ob) \<and> ''__proto__'' \<notin> set (keys ob)"

text \<open>The two actions that \<open>assertReducerShape\<close> hands to a reducer: the private init
  action, and the probe with the string of the \<open>n\<close>-th call of \<open>PROBE_UNKNOWN_ACTION\<close>;
  \<open>i\<close> is the identity of the action object.\<close>

definition init_action :: "globals \<Rightarrow> nat \<Rightarrow> val" where
  "init_action g i = VObj (Obj i (Some (Object_prototype g)) [(''type'', VStr (INIT g))])"

definition probe_action :: "globals \<Rightarrow> nat \<Rightarrow> nat \<Rightarrow> val" where
  "probe_action g n i =
     VObj (Obj i (Some (Object_prototype g))
             [(''type'', VStr (''@@redux/PROBE_UNKNOWN_ACTION'' @ randomString g (2 + n)))])"

text \<open>The reducer under \<open>key\<close> fails the shape assertion: it answers \<open>undefined\<close> to the
  init action, or to the probe.\<close>

definition fails_probe :: "globals \<Rightarrow> reducers \<Rightarrow> obj \<Rightarrow> string \<Rightarrow> bool" where
  "fails_probe g fns final key \<longleftrightarrow>
     (\<forall>i. call_reducer fns (get_prop final key) VUndefined (init_action g i) = Inr VUndefined)
     \<or> (\<forall>n i. call_reducer fns (get_prop final key) VUndefined (probe_action g n i) = Inr VUndefined)"

text \<open>No retained reducer throws when it is called with an undefined prior state and
  one of these two actions.\<close>

definition never_throws :: "globals \<Rightarrow> reducers \<Rightarrow> obj \<Rightarrow> string list \<Rightarrow> bool" where
  "never_throws g fns final ks \<longleftrightarrow>
     (\<forall>key \<in> set ks.
        (\<forall>i. \<exists>v. call_reducer fns (get_prop final key) VUndefined (init_action g i) = Inr v)
        \<and> (\<forall>n i. \<exists>v. call_reducer fns (get_prop final key) VUndefined (probe_action g n i) = Inr v))"




section \<open>createStore (src/createStore.js)\<close>

text \<open>
  The functions that the application hands to the store (transition functions and
  listeners) may call the store back.  Such a function is described by what it does when
  called with its arguments, as a tree: it returns a value, or throws, or makes a store
  call and goes on according to what the call gave back, which may be an exception it
  catches.  \<open>Unsubscribe k\<close> calls the unsubscribe function that the \<open>k\<close>-th call of
  \<open>subscribe\<close> returned (calling it before that call has happened is a \<open>TypeError\<close>:
  there is no such function yet), and \<open>Handle k\<close> is that function as the result of
  \<open>subscribe\<close>.  The table \<open>code\<close> maps the identity of a function value to its
  description.  The adapter \<open>observable\<close> of the store is not modelled.
\<close>

datatype cmd =
    GetState
  | Dispatch val
  | Subscribe val
  | Unsubscribe nat
  | ReplaceReducer val

datatype reply = Threw error | Gave val | Handle nat

datatype prog =
    Return val
  | Throw error
  | Call cmd "reply \<Rightarrow> prog"

type_synonym code = "nat \<Rightarrow> val list \<Rightarrow> prog"

text \<open>
  The variables that the closures of one store share.  The two listener lists are
  references to arrays: \<open>arrays\<close> holds every array allocated so far and a reference is
  an index into it, so that \<open>nextListeners === currentListeners\<close> compares indices and
  \<open>push\<close> and \<open>splice\<close> change what every holder of the reference sees.
  \<open>subscriptions\<close> holds, for every call of \<open>subscribe\<close>, the variables its
  \<open>unsubscribe\<close> closure captured: the listener and \<open>isSubscribed\<close>.  \<open>invoked\<close> records
  every listener the notification loops have called, oldest first; \<open>heap\<close> is the
  allocation state of the runtime.
\<close>

record store =
  currentReducer :: val
  currentState :: val
  currentListeners :: "nat option"
  nextListeners :: nat
  isDispatching :: bool
  arrays :: "val list list"
  subscriptions :: "(val \<times> bool) list"
  invoked :: "val list"
  heap :: runtime

text \<open>The result of an operation that may call the application back: \<open>None\<close> when the
  evaluation runs out of fuel, otherwise the value or exception and the store after it.\<close>

type_synonym 'a outcome = "((error + 'a) \<times> store) option"

definition ensureCanMutateNextListeners :: "store \<Rightarrow> store" where
  "ensureCanMutateNextListeners s =
     (if Some (nextListeners s) = currentListeners s
      then s\<lparr> arrays := arrays s @ [arrays s ! nextListeners s],
              nextListeners := length (arrays s) \<rparr>
      else s)"

definition getState :: "store \<Rightarrow> error + val" where
  "getState s = (if isDispatching s then Inl GetStateWhileDispatching else Inr (currentState s))"

text \<open>\<open>xs.indexOf(v)\<close> and \<open>xs.splice(index, 1)\<close>; a negative start counts from the end.\<close>

fun indexOf :: "val list \<Rightarrow> val \<Rightarrow> int" where
  "indexOf [] v = - 1"
| "indexOf (x # xs) v =
     (if strict_eq x v then 0
      else (let i = indexOf xs v in if i < 0 then - 1 else i + 1))"

definition splice1 :: "int \<Rightarrow> 'a list \<Rightarrow> 'a list" where
  "splice1 index xs =
     (let len = int (length xs);
          start = (if index < 0 then max (len + index) 0 else min index len)
      in take (nat start) xs @ drop (Suc (nat start)) xs)"

text \<open>\<open>subscribe\<close> returns the unsubscribe function: the index of its closure.\<close>

definition subscribe :: "val \<Rightarrow> store \<Rightarrow> (error + nat) \<times> store" where
  "subscribe listener s =
     (if typeof listener \<noteq> ''function'' then (Inl ListenerNotFunction, s)
      else if isDispatching s then (Inl SubscribeWhileDispatching, s)
      else
        (let s1 = s\<lparr> subscriptions := subscriptions s @ [(listener, True)] \<rparr>;
             s2 = ensureCanMutateNextListeners s1;
             s3 = s2\<lparr> arrays := (arrays s2)
                      [nextListeners s2 := arrays s2 ! nextListeners s2 @ [listener]] \<rparr>
         in (Inr (length (subscriptions s)), s3)))"

definition unsubscribe :: "nat \<Rightarrow> store \<Rightarrow> (error + val) \<times> store" where
  "unsubscribe k s =
     (if length (subscriptions s) \<le> k then (Inl TypeError, s)
      else
        (let (listener, isSubscribed) = subscriptions s ! k
         in if \<not> isSubscribed then (Inr VUndefined, s)
            else if isDispatching s then (Inl UnsubscribeWhileDispatching, s)
            else
              (let s1 = s\<lparr> subscriptions := (subscriptions s)[k := (listener, False)] \<rparr>;
                   s2 = ensureCanMutateNextListeners s1;
                   index = indexOf (arrays s2 ! nextListeners s2) listener;
                   s3 = s2\<lparr> arrays := (arrays s2)
                            [nextListeners s2 := splice1 index (arrays s2 ! nextListeners s2)] \<rparr>
               in (Inr VUndefined, s3\<lparr> currentListeners := None \<rparr>))))"

text \<open>
  \<open>replaceReducer\<close>, one store call of an application function with what it gives back,
  and the run of such a function.  \<open>D\<close> is the \<open>dispatch\<close> of the store.
\<close>

definition replaceReducer ::
  "(val \<Rightarrow> store \<Rightarrow> val outcome) \<Rightarrow> globals \<Rightarrow> val \<Rightarrow> store \<Rightarrow> val outcome" where
  "replaceReducer D g nextReducer s =
     (if typeof nextReducer \<noteq> ''function'' then Some (Inl NextReducerNotFunction, s)
      else
        (let s1 = s\<lparr> currentReducer := nextReducer \<rparr>;
             (a, h) = new_object g [(''type'', VStr (REPLACE g))] (heap s1)
         in (case D (VObj a) (s1\<lparr> heap := h \<rparr>) of
               None \<Rightarrow> None
             | Some (Inl e, s2) \<Rightarrow> Some (Inl e, s2)
             | Some (Inr r, s2) \<Rightarrow> Some (Inr VUndefined, s2))))"

fun run_cmd :: "(val \<Rightarrow> store \<Rightarrow> val outcome) \<Rightarrow> globals \<Rightarrow> cmd \<Rightarrow> store \<Rightarrow> (reply \<times> store) option" where
  "run_cmd D g GetState s =
     Some (case getState s of Inl e \<Rightarrow> Threw e | Inr v \<Rightarrow> Gave v, s)"
| "run_cmd D g (Dispatch action) s =
     (case D action s of
        None \<Rightarrow> None
      | Some (Inl e, s') \<Rightarrow> Some (Threw e, s')
      | Some (Inr v, s') \<Rightarrow> Some (Gave v, s'))"
| "run_cmd D g (Subscribe listener) s =
     (case subscribe listener s of
        (Inl e, s') \<Rightarrow> Some (Threw e, s')
      | (Inr k, s') \<Rightarrow> Some (Handle k, s'))"
| "run_cmd D g (Unsubscribe k) s =
     (case unsubscribe k s of
        (Inl e, s') \<Rightarrow> Some (Threw e, s')
      | (Inr v, s') \<Rightarrow> Some (Gave v, s'))"
| "run_cmd D g (ReplaceReducer r) s =
     (case replaceReducer D g r s of
        None \<Rightarrow> None
      | Some (Inl e, s') \<Rightarrow> Some (Threw e, s')
      | Some (Inr v, s') \<Rightarrow> Some (Gave v, s'))"

primrec run_prog :: "(val \<Rightarrow> store \<Rightarrow> val outcome) \<Rightarrow> globals \<Rightarrow> prog \<Rightarrow> store \<Rightarrow> val outcome" where
  "run_prog D g (Return v) = (\<lambda>s. Some (Inr v, s))"
| "run_prog D g (Throw e) = (\<lambda>s. Some (Inl e, s))"
| "run_prog D g (Call c k) =
     (\<lambda>s. case run_cmd D g c s of
             None \<Rightarrow> None
           | Some (r, s') \<Rightarrow> run_prog D g (k r) s')"

text \<open>The call \<open>f(...args)\<close> of a value handed in by the application.\<close>

definition call_function ::
  "(val \<Rightarrow> store \<Rightarrow> val outcome) \<Rightarrow> globals \<Rightarrow> code \<Rightarrow> val \<Rightarrow> val list \<Rightarrow> store \<Rightarrow> val outcome" where
  "call_function D g code f args s =
     (case f of
        VFun i \<Rightarrow> run_prog D g (code i args) s
      | _ \<Rightarrow> Some (Inl TypeError, s))"

text \<open>
  The loop \<open>for (let i = 0; i < listeners.length; i++) listeners[i]()\<close> over the array
  with reference \<open>r\<close>, from index \<open>i\<close>.  Length and element are read from the array as
  it is at each turn.  The first argument bounds the number of turns.
\<close>

primrec notify ::
  "nat \<Rightarrow> (val \<Rightarrow> store \<Rightarrow> val outcome) \<Rightarrow> globals \<Rightarrow> code \<Rightarrow> nat \<Rightarrow> nat \<Rightarrow> store \<Rightarrow> unit outcome" where
  "notify 0 D g code r i s = None"
| "notify (Suc fuel) D g code r i s =
     (if i < length (arrays s ! r) then
        (let listener = arrays s ! r ! i
         in case call_function D g code listener [] (s\<lparr> invoked := invoked s @ [listener] \<rparr>) of
              None \<Rightarrow> None
            | Some (Inl e, s') \<Rightarrow> Some (Inl e, s')
            | Some (Inr v, s') \<Rightarrow> notify fuel D g code r (Suc i) s')
      else Some (Inr (), s))"

text \<open>The body of \<open>dispatch\<close>; \<open>D\<close> is the \<open>dispatch\<close> that the application's functions
  reach when they call the store.\<close>

definition dispatch_body ::
  "nat \<Rightarrow> (val \<Rightarrow> store \<Rightarrow> val outcome) \<Rightarrow> globals \<Rightarrow> code \<Rightarrow> val \<Rightarrow> store \<Rightarrow> val outcome" where
  "dispatch_body fuel D g code action s =
     (if \<not> isPlainObject action then Some (Inl ActionsMustBePlain, s)
      else if typeof (case action of VObj a \<Rightarrow> get_prop a ''type'' | _ \<Rightarrow> VUndefined) = ''undefined''
      then Some (Inl ActionTypeUndefined, s)
      else if isDispatching s then Some (Inl ReducersMayNotDispatch, s)
      else
        (case call_function D g code (currentReducer s) [currentState s, action]
                (s\<lparr> isDispatching := True \<rparr>) of
           None \<Rightarrow> None
         | Some (Inl e, s1) \<Rightarrow> Some (Inl e, s1\<lparr> isDispatching := False \<rparr>)
         | Some (Inr v, s1) \<Rightarrow>
             (let s2 = s1\<lparr> currentState := v, isDispatching := False \<rparr>;
                  listeners = nextListeners s2;
                  s3 = s2\<lparr> currentListeners := Some listeners \<rparr>
              in case notify fuel D g code listeners 0 s3 of
                   None \<Rightarrow> None
                 | Some (Inl e, s4) \<Rightarrow> Some (Inl e, s4)
                 | Some (Inr u, s4) \<Rightarrow> Some (Inr action, s4))))"

text \<open>\<open>dispatch\<close>: the first argument bounds the depth of nested dispatches and the
  number of listeners a dispatch can notify.\<close>

primrec dispatch :: "nat \<Rightarrow> globals \<Rightarrow> code \<Rightarrow> val \<Rightarrow> store \<Rightarrow> val outcome" where
  "dispatch 0 g code action s = None"
| "dispatch (Suc fuel) g code action s =
     dispatch_body (Suc fuel) (dispatch fuel g code) g code action s"

text \<open>
  \<open>createStore(reducer, preloadedState, enhancer)\<close>, with \<open>arg3\<close> for \<open>arguments[3]\<close>.
  \<open>enhance\<close> stands for the call \<open>enhancer(createStore)(reducer, preloadedState)\<close>, which
  is the enhancer's own code.  The result is the new store, or the exception thrown, or
  \<open>None\<close> when the first dispatch runs out of fuel.
\<close>

definition createStore ::
  "nat \<Rightarrow> (val \<Rightarrow> val \<Rightarrow> val \<Rightarrow> runtime \<Rightarrow> (error + store) option) \<Rightarrow> globals \<Rightarrow> code \<Rightarrow>
     val \<Rightarrow> val \<Rightarrow> val \<Rightarrow> val \<Rightarrow> runtime \<Rightarrow> (error + store) option" where
  "createStore fuel enhance g code reducer preloadedState0 enhancer0 arg3 h =
     (if (typeof preloadedState0 = ''function'' \<and> typeof enhancer0 = ''function'')
         \<or> (typeof enhancer0 = ''function'' \<and> typeof arg3 = ''function'')
      then Some (Inl SeveralEnhancers)
      else
        (let swap = (typeof preloadedState0 = ''function'' \<and> typeof enhancer0 = ''undefined'');
             enhancer = (if swap then preloadedState0 else enhancer0);
             preloadedState = (if swap then VUndefined else preloadedState0)
         in if typeof enhancer \<noteq> ''undefined'' then
              (if typeof enhancer \<noteq> ''function'' then Some (Inl EnhancerNotFunction)
               else enhance enhancer reducer preloadedState h)
            else if typeof reducer \<noteq> ''function'' then Some (Inl ReducerNotFunction)
            else
              (let s = \<lparr> currentReducer = reducer,
                         currentState = preloadedState,
                         currentListeners = Some 0,
                         nextListeners = 0,
                         isDispatching = False,
                         arrays = [[]],
                         subscriptions = [],
                         invoked = [],
                         heap = h \<rparr>;
                   (a, h') = new_object g [(''type'', VStr (INIT g))] h
               in case dispatch fuel g code (VObj a) (s\<lparr> heap := h' \<rparr>) of
                    None \<Rightarrow> None
                  | Some (Inl e, s') \<Rightarrow> Some (Inl e)
                  | Some (Inr r, s') \<Rightarrow> Some (Inr s'))))"

section \<open>Invariants of the store\<close>


definition accepted :: "val \<Rightarrow> bool" where
  "accepted a \<longleftrightarrow> isPlainObject a
     \<and> typeof (case a of VObj ob \<Rightarrow> get_prop ob ''type'' | _ \<Rightarrow> VUndefined) \<noteq> ''undefined''"

text \<open>Two stores that differ at most in the current reducer and in the allocation state.\<close>

definition busy_frame :: "store \<Rightarrow> store \<Rightarrow> bool" where
  "busy_frame s s' \<longleftrightarrow>
     currentState s' = currentState s \<and> currentListeners s' = currentListeners s
     \<and> nextListeners s' = nextListeners s \<and> isDispatching s' = isDispatching s
     \<and> arrays s' = arrays s \<and> subscriptions s' = subscriptions s \<and> invoked s' = invoked s"

text \<open>A listener that makes no store call and returns.\<close>

definition quiet :: "code \<Rightarrow> val \<Rightarrow> bool" where
  "quiet code l \<longleftrightarrow> (\<exists>i r. l = VFun i \<and> code i [] = Return r)"

text \<open>
  The pending listener list, and the listeners of the subscriptions that have not been
  cancelled.  The engine is well formed when the pending reference is allocated, every
  subscribed listener is a function, and the pending list holds exactly the listeners
  of the live subscriptions, as often as they are subscribed.
\<close>

definition pending :: "store \<Rightarrow> val list" where
  "pending s = arrays s ! nextListeners s"

definition active :: "store \<Rightarrow> val list" where
  "active s = map fst (filter snd (subscriptions s))"

definition engine_inv :: "store \<Rightarrow> bool" where
  "engine_inv s \<longleftrightarrow>
     nextListeners s < length (arrays s)
     \<and> (\<forall>p \<in> set (subscriptions s). \<exists>f. fst p = VFun f)
     \<and> mset (pending s) = mset (active s)"

text \<open>A notification loop is running over the array with reference \<open>r\<close>, whose content is
  \<open>L\<close>: the array is untouched, and when it is the pending array it is the committed one
  as well, so that the next change of the pending list copies it first.\<close>

definition iterating :: "nat \<Rightarrow> val list \<Rightarrow> store \<Rightarrow> bool" where
  "iterating r L s \<longleftrightarrow>
     r < length (arrays s) \<and> arrays s ! r = L
     \<and> (nextListeners s = r \<longrightarrow> currentListeners s = Some r)"

text \<open>
  \<open>later B s s'\<close>: the store \<open>s'\<close> is \<open>s\<close> after some operations that subscribed no
  listener \<open>B\<close>.  The store is well formed, subscriptions are only added and only
  cancelled, the record of calls only grows, running loops are kept, and \<open>B\<close> does not
  enter the pending list.
\<close>

definition later :: "val \<Rightarrow> store \<Rightarrow> store \<Rightarrow> bool" where
  "later B s s' \<longleftrightarrow>
     engine_inv s'
     \<and> length (subscriptions s) \<le> length (subscriptions s')
     \<and> (\<forall>k < length (subscriptions s).
           fst (subscriptions s' ! k) = fst (subscriptions s ! k)
           \<and> (snd (subscriptions s' ! k) \<longrightarrow> snd (subscriptions s ! k)))
     \<and> (\<forall>k. length (subscriptions s) \<le> k \<and> k < length (subscriptions s')
           \<longrightarrow> fst (subscriptions s' ! k) \<noteq> B)
     \<and> (\<exists>more. invoked s' = invoked s @ more)
     \<and> (\<forall>r L. iterating r L s \<longrightarrow> iterating r L s')
     \<and> (B \<notin> set (pending s) \<longrightarrow> B \<notin> set (pending s'))"

text \<open>The listeners called between \<open>s\<close> and the later store \<open>s'\<close>.\<close>

definition called_between :: "store \<Rightarrow> store \<Rightarrow> val list" where
  "called_between s s' = drop (length (invoked s)) (invoked s')"

text \<open>A step to a later store that calls no \<open>B\<close> when \<open>B\<close> is not pending.\<close>

definition ok_step :: "val \<Rightarrow> store \<Rightarrow> store \<Rightarrow> bool" where
  "ok_step B s s' \<longleftrightarrow>
     later B s s' \<and> (B \<notin> set (pending s) \<longrightarrow> B \<notin> set (called_between s s'))"

text \<open>
  \<open>may_call c p\<close>: some run of the function \<open>p\<close> makes the store call \<open>c\<close>;
  \<open>must_call c p\<close>: every run of \<open>p\<close> makes it, whatever the calls before it give back.
  No function of the application subscribes the listener \<open>B\<close> when none may call
  \<open>subscribe(B)\<close>.
\<close>

inductive may_call :: "cmd \<Rightarrow> prog \<Rightarrow> bool" where
  may_now: "may_call c (Call c k)"
| may_later: "may_call c (k r) \<Longrightarrow> may_call c (Call c' k)"

inductive must_call :: "cmd \<Rightarrow> prog \<Rightarrow> bool" where
  must_now: "must_call c (Call c k)"
| must_later: "(\<And>r. must_call c (k r)) \<Longrightarrow> must_call c (Call c' k)"

definition never_subscribes :: "code \<Rightarrow> val \<Rightarrow> bool" where
  "never_subscribes code B \<longleftrightarrow> (\<forall>i args. \<not> may_call (Subscribe B) (code i args))"

text \<open>A \<open>dispatch\<close> whose every outcome from a well-formed store is such a step.\<close>

definition steady :: "val \<Rightarrow> (val \<Rightarrow> store \<Rightarrow> val outcome) \<Rightarrow> bool" where
  "steady B D \<longleftrightarrow> (\<forall>a s x s'. engine_inv s \<and> D a s = Some (x, s') \<longrightarrow> ok_step B s s')"

text \<open>A \<open>dispatch\<close> that leaves the dispatching flag as it found it.\<close>

definition keeps_flag :: "(val \<Rightarrow> store \<Rightarrow> val outcome) \<Rightarrow> bool" where
  "keeps_flag D \<longleftrightarrow> (\<forall>a s x s'. D a s = Some (x, s') \<longrightarrow> isDispatching s' = isDispatching s)"

text \<open>
  \<open>calm n p\<close>: the function \<open>p\<close> only reads the state, subscribes functions and calls
  unsubscribe functions that exist, and returns whatever these calls give back; \<open>n\<close> is
  a number of subscriptions that the store is known to hold when \<open>p\<close> starts, so that
  the unsubscribe functions up to \<open>n\<close>, and those that \<open>p\<close> was handed by its own calls
  of \<open>subscribe\<close>, exist.  Such a function makes no call of \<open>dispatch\<close> or
  \<open>replaceReducer\<close> and throws nothing itself.
\<close>

inductive calm :: "nat \<Rightarrow> prog \<Rightarrow> bool" where
  calm_Return: "calm n (Return v)"
| calm_GetState: "(\<And>v. calm n (k (Gave v))) \<Longrightarrow> calm n (Call GetState k)"
| calm_Subscribe:
    "typeof l = ''function'' \<Longrightarrow> (\<And>h. n \<le> h \<Longrightarrow> calm (Suc h) (k (Handle h))) \<Longrightarrow>
       calm n (Call (Subscribe l) k)"
| calm_Unsubscribe:
    "j < n \<Longrightarrow> calm n (k (Gave VUndefined)) \<Longrightarrow> calm n (Call (Unsubscribe j) k)"

section \<open>Example inputs\<close>

text \<open>
  The surroundings: a non-production build, \<open>Object.prototype\<close> with its built-in
  methods (functions 70 to 76).  The reducers: a counter that increments on \<open>INCREMENT\<close>
  (function 0), a name that no action changes (function 1), a reducer that returns
  \<open>undefined\<close> (function 2), and one that reads the type of its action before it
  returns its state, so that it throws when it is called without an action
  (function 3).
\<close>

definition ex_Object_prototype :: obj where
  "ex_Object_prototype =
     Obj 90 None
       [(''constructor'', VFun 70), (''hasOwnProperty'', VFun 71), (''isPrototypeOf'', VFun 72),
        (''propertyIsEnumerable'', VFun 73), (''toLocaleString'', VFun 74),
        (''toString'', VFun 75), (''valueOf'', VFun 76)]"

text \<open>\<open>String(v)\<close> in the examples: numbers in decimal, and \<open>[object Object]\<close> for an
  object that inherits the built-in \<open>toString\<close>; an object without a conversion method
  cannot be converted.\<close>

function decimal :: "nat \<Rightarrow> string" where
  "decimal n =
     (if n < 10 then [''0123456789'' ! n]
      else decimal (n div 10) @ [''0123456789'' ! (n mod 10)])"
  by pat_completeness auto
termination by (relation "measure (\<lambda>n. n)") auto

definition ex_String :: "val \<Rightarrow> error + string" where
  "ex_String v =
     (case v of
        VUndefined \<Rightarrow> Inr ''undefined''
      | VNull \<Rightarrow> Inr ''null''
      | VBool b \<Rightarrow> Inr (if b then ''true'' else ''false'')
      | VNum n \<Rightarrow> Inr (if n < 0 then ''-'' @ decimal (nat (- n)) else decimal (nat n))
      | VNaN \<Rightarrow> Inr ''NaN''
      | VStr t \<Rightarrow> Inr t
      | VFun f \<Rightarrow> Inr ''function () {}''
      | VObj ob \<Rightarrow>
          if get_prop ob ''toString'' = VFun 75 then Inr ''[object Object]'' else Inl TypeError)"

definition ex_globals :: globals where
  "ex_globals =
     \<lparr> Object_prototype = ex_Object_prototype,
       randomString = (\<lambda>n. ''x.y.z''),
       NODE_ENV = ''development'',
       Function_prototype_address = 91,
       hasOwnProperty_address = 71,
       to_String = ex_String \<rparr>"

definition ex_fns :: reducers where
  "ex_fns i state action =
     (if i = 0 then
        (case state of
           VUndefined \<Rightarrow> Inr (VNum 0)
         | VNum n \<Rightarrow> (case action of
                        VObj a \<Rightarrow> if get_prop a ''type'' = VStr ''INCREMENT'' then Inr (VNum (n + 1))
                                  else Inr state
                      | _ \<Rightarrow> Inr state)
         | _ \<Rightarrow> Inr state)
      else if i = 1 then (if state = VUndefined then Inr (VStr []) else Inr state)
      else if i = 3 then
        (case action of
           VObj a \<Rightarrow> Inr (if state = VUndefined then VNum 0 else state)
         | _ \<Rightarrow> Inl TypeError)
      else Inr VUndefined)"

text \<open>A mapping with a counter, a name and an entry that is not a function.\<close>

definition ex_reducers :: obj where
  "ex_reducers =
     Obj 10 (Some ex_Object_prototype) [(''counter'', VFun 0), (''name'', VFun 1), (''version'', VNum 3)]"

definition ex_action :: "string \<Rightarrow> val" where
  "ex_action t = VObj (Obj 11 (Some ex_Object_prototype) [(''type'', VStr t)])"

definition ex_combined :: combined where
  "ex_combined =
     \<lparr> finalReducers = Obj 20 (Some ex_Object_prototype) [(''counter'', VFun 0), (''name'', VFun 1)],
       finalReducerKeys = [''counter'', ''name''],
       shapeAssertionError = None \<rparr>"

definition ex_state :: obj where
  "ex_state = Obj 12 (Some ex_Object_prototype) [(''counter'', VNum 4), (''name'', VStr ''n'')]"

text \<open>A mapping whose only reducer returns \<open>undefined\<close> for every action.\<close>

definition ex_broken :: obj where
  "ex_broken = Obj 13 (Some ex_Object_prototype) [(''broken'', VFun 2)]"

definition ex_broken_combined :: combined where
  "ex_broken_combined =
     \<lparr> finalReducers = Obj 20 (Some ex_Object_prototype) [(''broken'', VFun 2)],
       finalReducerKeys = [''broken''],
       shapeAssertionError = Some (UndefinedDuringInit ''broken'') \<rparr>"

text \<open>A prior state with a key that no reducer owns.\<close>

definition ex_stale :: obj where
  "ex_stale =
     Obj 14 (Some ex_Object_prototype) [(''counter'', VNum 4), (''name'', VStr ''n''), (''old'', VNull)]"

text \<open>A mapping with a reducer under the key \<open>hasOwnProperty\<close>, and a state for it.\<close>

definition ex_shadow :: obj where
  "ex_shadow = Obj 15 (Some ex_Object_prototype) [(''hasOwnProperty'', VFun 3)]"

definition ex_shadow_combined :: combined where
  "ex_shadow_combined =
     \<lparr> finalReducers = Obj 20 (Some ex_Object_prototype) [(''hasOwnProperty'', VFun 3)],
       finalReducerKeys = [''hasOwnProperty''],
       shapeAssertionError = None \<rparr>"

definition ex_shadow_state :: obj where
  "ex_shadow_state = Obj 16 (Some ex_Object_prototype) [(''hasOwnProperty'', VNum 4)]"

text \<open>A mapping with a function under the key \<open>__proto__\<close> and a reducer under \<open>name\<close>.\<close>

definition ex_inherit :: obj where
  "ex_inherit = Obj 17 (Some ex_Object_prototype) [(''__proto__'', VFun 0), (''name'', VFun 1)]"

text \<open>
  Functions handed to a store.  Function 0 is a transition function: it throws on
  \<open>FAIL\<close>, reads the state from the store on \<open>PEEK\<close>, calls the first unsubscribe
  function on \<open>UNSUB\<close>, increments on \<open>INCREMENT\<close>, and otherwise returns its state (or
  \<open>0\<close> for an undefined one).  Function 1 is a listener that calls the second unsubscribe
  function; function 2 is a listener that does nothing; function 3 is a listener that
  reads the state.
\<close>

definition ex_code :: code where
  "ex_code i args =
     (if i = 0 then
        (case args of
           [state, VObj a] \<Rightarrow>
             (let t = get_prop a ''type''
              in if t = VStr ''FAIL'' then Throw (Thrown (VStr ''boom''))
                 else if t = VStr ''PEEK''
                   then Call GetState (\<lambda>r. case r of Threw e \<Rightarrow> Throw e | _ \<Rightarrow> Return state)
                 else if t = VStr ''UNSUB''
                   then Call (Unsubscribe 0) (\<lambda>r. case r of Threw e \<Rightarrow> Throw e | _ \<Rightarrow> Return state)
                 else if t = VStr ''INCREMENT''
                   then Return (case state of VNum n \<Rightarrow> VNum (n + 1) | _ \<Rightarrow> state)
                 else Return (if state = VUndefined then VNum 0 else state))
         | _ \<Rightarrow> Return VUndefined)
      else if i = 1
        then Call (Unsubscribe 1) (\<lambda>r. case r of Threw e \<Rightarrow> Throw e | _ \<Rightarrow> Return VUndefined)
      else if i = 3
        then Call GetState (\<lambda>r. case r of Threw e \<Rightarrow> Throw e | _ \<Rightarrow> Return VUndefined)
      else Return VUndefined)"

definition ex_enhance :: "val \<Rightarrow> val \<Rightarrow> val \<Rightarrow> runtime \<Rightarrow> (error + store) option" where
  "ex_enhance enhancer reducer preloadedState h = Some (Inl TypeError)"

text \<open>The store that \<open>createStore(f0)\<close> returns.\<close>

definition ex_store :: store where
  "ex_store =
     \<lparr> currentReducer = VFun 0,
       currentState = VNum 0,
       currentListeners = Some 0,
       nextListeners = 0,
       isDispatching = False,
       arrays = [[]],
       subscriptions = [],
       invoked = [],
       heap = \<lparr> next_ident = 101, probe_calls = 0 \<rparr> \<rparr>"


definition ex_store_two :: store where
  "ex_store_two =
     ex_store\<lparr> nextListeners := 1, arrays := [[], [VFun 1, VFun 2]],
               subscriptions := [(VFun 1, True), (VFun 2, True)] \<rparr>"

text \<open>The store \<open>ex_store_two\<close> after a first and after a second dispatch.\<close>

definition ex_store_first :: store where
  "ex_store_first =
     ex_store\<lparr> currentState := VNum 1, currentListeners := None, nextListeners := 2,
               arrays := [[], [VFun 1, VFun 2], [VFun 1]],
               subscriptions := [(VFun 1, True), (VFun 2, False)],
               invoked := [VFun 1, VFun 2] \<rparr>"

definition ex_store_second :: store where
  "ex_store_second =
     ex_store_first\<lparr> currentListeners := Some 2, invoked := [VFun 1, VFun 2, VFun 1] \<rparr>"

text \<open>The store after \<open>subscribe(f3)\<close>.\<close>

definition ex_store_watched :: store where
  "ex_store_watched =
     ex_store\<lparr> nextListeners := 1, arrays := [[], [VFun 3]],
               subscriptions := [(VFun 3, True)] \<rparr>"

section \<open>Properties of the plain-object validator\<close>

lemma proto_walk_terminus: "chain_terminus ob (proto_walk ob)"
  by (induction ob rule: proto_walk.induct)
     (auto simp: chain_terminus_def intro: on_chain.intros)

lemma on_chain_walk: "on_chain ob t \<Longrightarrow> proto t = None \<Longrightarrow> proto_walk ob = t"
proof (induction rule: on_chain.induct)
  case (here ob)
  then show ?case by (cases ob) auto
next
  case (up ob p t)
  then show ?case by (cases ob) auto
qed

lemma chain_terminus_iff: "chain_terminus ob t \<longleftrightarrow> t = proto_walk ob"
  using proto_walk_terminus on_chain_walk by (auto simp: chain_terminus_def)

text \<open>
  C9.  The validator answers true exactly for an object (not \<open>null\<close>, not a function)
  whose immediate prototype is the terminus of its own prototype chain.  An object with
  the \<open>null\<close> prototype is rejected; an object whose prototype ends the chain (a mapping
  literal) is accepted; an object with one more prototype in between (an array, a date,
  an instance of a class), a function and \<open>null\<close> are rejected.
\<close>

theorem isPlainObject_iff:
  "(isPlainObject v \<longleftrightarrow>
      (\<exists>ob p t. v = VObj ob \<and> getPrototypeOf ob = Some p \<and> chain_terminus ob t \<and> ident p = ident t))
   \<and> (getPrototypeOf ob = None \<longrightarrow> \<not> isPlainObject (VObj ob))
   \<and> (proto root = None \<longrightarrow> isPlainObject (VObj (Obj i (Some root) ps)))
   \<and> (proto root = None \<and> j \<noteq> ident root \<longrightarrow>
        \<not> isPlainObject (VObj (Obj i (Some (Obj j (Some root) qs)) ps)))
   \<and> \<not> isPlainObject (VFun f)
   \<and> \<not> isPlainObject VNull"
proof -
  have a: "isPlainObject v \<longleftrightarrow>
      (\<exists>ob p t. v = VObj ob \<and> getPrototypeOf ob = Some p \<and> chain_terminus ob t \<and> ident p = ident t)"
    by (cases v) (auto simp: isPlainObject_def chain_terminus_iff split: option.splits)
  have b: "getPrototypeOf ob = None \<longrightarrow> \<not> isPlainObject (VObj ob)"
    by (simp add: isPlainObject_def)
  have c: "proto root = None \<longrightarrow> isPlainObject (VObj (Obj i (Some root) ps))"
    by (cases root) (simp add: isPlainObject_def getPrototypeOf_def)
  have d: "proto root = None \<and> j \<noteq> ident root \<longrightarrow>
        \<not> isPlainObject (VObj (Obj i (Some (Obj j (Some root) qs)) ps))"
    by (cases root) (simp add: isPlainObject_def getPrototypeOf_def)
  show ?thesis using a b c d by (simp add: isPlainObject_def)
qed

theorem isPlainObject_iff_witness:
  "isPlainObject (VObj (Obj 7 (Some (Obj 1 None [])) [(''type'', VStr ''INCREMENT'')]))
   \<and> \<not> isPlainObject (VObj (Obj 8 None []))
   \<and> \<not> isPlainObject (VObj (Obj 9 (Some (Obj 2 (Some (Obj 1 None [])) [])) [(''0'', VNum 5)]))"
  using isPlainObject_iff [where v = VNull and ob = "Obj 8 None []" and root = "Obj 1 None []"
      and i = 7 and ps = "[(''type'', VStr ''INCREMENT'')]" and j = 2 and qs = "[]"]
    isPlainObject_iff [where v = VNull and ob = "Obj 8 None []" and root = "Obj 1 None []"
      and i = 9 and ps = "[(''0'', VNum 5)]" and j = 2 and qs = "[]"]
  by (simp add: getPrototypeOf_def)

section \<open>Properties of the function composer and of the middleware composer\<close>

text \<open>
  C8.  \<open>compose(f, g, h)(x)\<close> is \<open>f(g(h(x)))\<close>: \<open>h\<close> is called first, then \<open>g\<close> on its
  result, then \<open>f\<close>, and a stage that throws ends the call; for functions without
  effects the result is the value \<open>F (G (H x))\<close>.  \<open>compose()\<close> returns its argument,
  and \<open>compose(f)\<close> is \<open>f\<close> itself.
\<close>

theorem compose_right_to_left:
  "compose [f, g, h] x s =
     (case h x s of
        (Inl e, s1) \<Rightarrow> (Inl e, s1)
      | (Inr y, s1) \<Rightarrow>
          (case g y s1 of
             (Inl e, s2) \<Rightarrow> (Inl e, s2)
           | (Inr z, s2) \<Rightarrow> f z s2))
   \<and> compose [pure_fun F, pure_fun G, pure_fun H] x s = (Inr (F (G (H x))), s)
   \<and> compose [] x s = (Inr x, s)
   \<and> compose [f] = f"
  by (simp add: compose_def pure_fun_def split: prod.splits sum.splits)

text \<open>
  C7.  For the middleware sequence \<open>[m1, m2]\<close>, the composed dispatch is what the wrapper
  of \<open>m1\<close> returns when it is handed, as its next stage, what the wrapper of \<open>m2\<close>
  returns when it is handed the base dispatch: an action enters the stage of \<open>m1\<close>
  first, whose next stage is that of \<open>m2\<close>, whose next stage is the base dispatch.
\<close>

theorem applyMiddleware_order:
  assumes "m1 api s = (Inr w1, s1)" and "m2 api s1 = (Inr w2, s2)"
    and "w2 d s2 = (Inr d2, s3)" and "w1 d2 s3 = (Inr d1, s4)"
  shows "applyMiddleware api [m1, m2] d s = (Inr d1, s4)"
  using assms by (simp add: applyMiddleware_def compose_def)

theorem applyMiddleware_order_witness:
  "\<exists>D. applyMiddleware () [tracer ''m1'', tracer ''m2''] base_dispatch []
          = (Inr D, [] :: string list)
      \<and> D (VStr ''act'') [] = (Inr (VStr ''act'') :: unit + val, [''m1'', ''m2'', ''base''])"
proof -
  let ?w = "\<lambda>name (next :: (val, string list, unit) jsfun) (s1 :: string list).
              (Inr (\<lambda>action t. next action (t @ [name])) :: unit + (val, string list, unit) jsfun, s1)"
  have "applyMiddleware () [tracer ''m1'', tracer ''m2''] base_dispatch []
          = (Inr (\<lambda>action t. base_dispatch action ((t @ [''m1'']) @ [''m2'']))
               :: unit + (val, string list, unit) jsfun, [])"
    using applyMiddleware_order [where ?m1.0 = "tracer ''m1''" and ?m2.0 = "tracer ''m2''"
          and api = "()" and s = "[]" and d = base_dispatch
          and ?w1.0 = "?w ''m1''" and ?w2.0 = "?w ''m2''" and ?s1.0 = "[]" and ?s2.0 = "[]"
          and ?s3.0 = "[]" and ?s4.0 = "[]"
          and ?d2.0 = "\<lambda>action t. base_dispatch action (t @ [''m2''])"
          and ?d1.0 = "\<lambda>action t. base_dispatch action ((t @ [''m1'']) @ [''m2''])"]
    by (simp add: tracer_def)
  then show ?thesis by (simp add: base_dispatch_def)
qed

section \<open>The example inputs, evaluated\<close>

lemma ex_built:
  "combineReducers ex_globals ex_fns ex_reducers \<lparr>next_ident = 20, probe_calls = 0\<rparr> =
     (Inr ex_combined, \<lparr>next_ident = 25, probe_calls = 2\<rparr>)"
  by (simp add: combineReducers_def ex_globals_def ex_fns_def ex_reducers_def keys_def
      new_object_def set_prop_def ex_Object_prototype_def assertReducerShape_def assert_one_def call_reducer_def
      PROBE_UNKNOWN_ACTION_def INIT_def ex_combined_def)

lemma ex_fields:
  "finalReducerKeys ex_combined = [''counter'', ''name'']"
  "shapeAssertionError ex_combined = None"
  "finalReducers ex_combined =
     Obj 20 (Some ex_Object_prototype) [(''counter'', VFun 0), (''name'', VFun 1)]"
  by (simp_all add: ex_combined_def)


lemma ex_standard: "standard ex_globals"
  by (simp add: standard_def ex_globals_def ex_Object_prototype_def)


lemma ex_broken_built:
  "combineReducers ex_globals ex_fns ex_broken \<lparr>next_ident = 20, probe_calls = 0\<rparr> =
     (Inr ex_broken_combined, \<lparr>next_ident = 22, probe_calls = 0\<rparr>)"
  by (simp add: combineReducers_def ex_globals_def ex_fns_def ex_broken_def keys_def
      new_object_def set_prop_def ex_Object_prototype_def assertReducerShape_def assert_one_def call_reducer_def
      PROBE_UNKNOWN_ACTION_def INIT_def ex_broken_combined_def)

text \<open>
  A reducer stored under the key \<open>hasOwnProperty\<close> is what the diagnostic of a
  non-production build calls, with a key of the state and no action: the combined
  reducer throws what that call throws.  In a production build it returns.
\<close>

lemma ex_shadow_built:
  "combineReducers ex_globals ex_fns ex_shadow \<lparr>next_ident = 20, probe_calls = 0\<rparr> =
     (Inr ex_shadow_combined, \<lparr>next_ident = 23, probe_calls = 1\<rparr>)"
  by (simp add: combineReducers_def ex_globals_def ex_fns_def ex_shadow_def keys_def
      new_object_def set_prop_def ex_Object_prototype_def assertReducerShape_def assert_one_def
      call_reducer_def PROBE_UNKNOWN_ACTION_def INIT_def ex_shadow_combined_def)

lemma ex_shadow_throws:
  "combination ex_globals ex_fns ex_shadow_combined (Some ex_shadow_state) (ex_action ''OTHER'')
     \<lparr>next_ident = 30, probe_calls = 1\<rparr> = (Inl TypeError, \<lparr>next_ident = 30, probe_calls = 1\<rparr>)"
  "combination (ex_globals\<lparr>NODE_ENV := ''production''\<rparr>) ex_fns ex_shadow_combined
     (Some ex_shadow_state) (ex_action ''OTHER'')
     \<lparr>next_ident = 30, probe_calls = 1\<rparr> = (Inr ex_shadow_state, \<lparr>next_ident = 31, probe_calls = 1\<rparr>)"
  by (simp_all add: combination_def new_object_def ex_shadow_combined_def ex_shadow_state_def
      ex_action_def ex_fns_def ex_globals_def slice_result_def call_reducer_def set_prop_def
      keys_def getUnexpectedStateShapeWarningMessage_def hasOwnProperty_call_def
      isPlainObject_def getPrototypeOf_def ex_Object_prototype_def)

text \<open>A function stored under the key \<open>__proto__\<close> becomes the prototype of the mapping of
  the retained reducers, and the reducer under \<open>name\<close> can then not be retained: the
  combinator throws.\<close>

lemma ex_inherit_throws:
  "combineReducers ex_globals ex_fns ex_inherit \<lparr>next_ident = 20, probe_calls = 0\<rparr> =
     (Inl TypeError, \<lparr>next_ident = 21, probe_calls = 0\<rparr>)"
  by (simp add: combineReducers_def ex_globals_def ex_inherit_def keys_def new_object_def
      set_prop_def ex_Object_prototype_def function_object_def Function_prototype_def)

lemma ex_accepted: "accepted (ex_action t)"
  by (simp add: accepted_def ex_action_def ex_Object_prototype_def isPlainObject_def getPrototypeOf_def)

lemma ex_first:
  "dispatch 3 ex_globals ex_code (ex_action ''INCREMENT'') ex_store_two
     = Some (Inr (ex_action ''INCREMENT''), ex_store_first)"
  by (simp add: numeral_2_eq_2 numeral_3_eq_3 Let_def dispatch_body_def isPlainObject_def getPrototypeOf_def
      ex_action_def ex_Object_prototype_def ex_code_def ex_store_two_def ex_store_first_def ex_store_def
      call_function_def unsubscribe_def ensureCanMutateNextListeners_def splice1_def)

lemma ex_second:
  "dispatch 3 ex_globals ex_code (ex_action ''OTHER'') ex_store_first
     = Some (Inr (ex_action ''OTHER''), ex_store_second)"
  by (simp add: numeral_2_eq_2 numeral_3_eq_3 Let_def dispatch_body_def isPlainObject_def getPrototypeOf_def
      ex_action_def ex_Object_prototype_def ex_code_def ex_store_second_def ex_store_first_def ex_store_def
      call_function_def unsubscribe_def ensureCanMutateNextListeners_def splice1_def)

lemma may_call_simps [simp]:
  "\<not> may_call c (Return v)" "\<not> may_call c (Throw e)"
  "may_call c (Call c' k) \<longleftrightarrow> c = c' \<or> (\<exists>r. may_call c (k r))"
  by (auto elim: may_call.cases intro: may_call.intros)

lemma ex_never: "never_subscribes ex_code (VFun 2)"
  by (auto simp: never_subscribes_def ex_code_def Let_def
      split: list.splits val.splits if_splits reply.splits)

lemma ex_two_inv: "engine_inv ex_store_two"
  by (simp add: engine_inv_def ex_store_two_def ex_store_def pending_def active_def)

text \<open>How the example stores come about.\<close>

lemma ex_created:
  "createStore 1 ex_enhance ex_globals ex_code (VFun 0) VUndefined VUndefined VUndefined
     \<lparr> next_ident = 100, probe_calls = 0 \<rparr> = Some (Inr ex_store)"
  by (simp add: createStore_def new_object_def dispatch_body_def isPlainObject_def
      getPrototypeOf_def ex_globals_def ex_Object_prototype_def call_function_def ex_code_def INIT_def ex_store_def)

lemma ex_subscribed:
  "subscribe (VFun 1) ex_store =
     (Inr 0, ex_store\<lparr> nextListeners := 1, arrays := [[], [VFun 1]],
                       subscriptions := [(VFun 1, True)] \<rparr>)"
  "subscribe (VFun 2) (ex_store\<lparr> nextListeners := 1, arrays := [[], [VFun 1]],
                                 subscriptions := [(VFun 1, True)] \<rparr>) = (Inr 1, ex_store_two)"
  by (simp_all add: subscribe_def ensureCanMutateNextListeners_def ex_store_def ex_store_two_def)

section \<open>Properties of the reducer combinator\<close>

lemma get_prop_unfold:
  "get_prop ob k = (case map_of (props ob) k of
                      Some v \<Rightarrow> v
                    | None \<Rightarrow> (case proto ob of None \<Rightarrow> VUndefined | Some p \<Rightarrow> get_prop p k))"
  by (cases ob; cases "proto ob") (auto split: option.splits)


lemma keys_put: "map fst (put k v ps) = (if k \<in> set (map fst ps) then map fst ps else map fst ps @ [k])"
  by (induction ps) (auto split: if_splits)

lemma map_of_put: "map_of (put k v ps) = (map_of ps)(k \<mapsto> v)"
  by (induction ps) (auto simp: fun_eq_iff)

lemma typeof_function: "typeof v = ''function'' \<longleftrightarrow> (\<exists>f. v = VFun f)"
  by (cases v) auto

lemma typeof_undefined: "typeof v = ''undefined'' \<longleftrightarrow> v = VUndefined"
  by (cases v) auto

lemma dom_put: "fst ` set (put k v ps) = insert k (fst ` set ps)"
proof -
  have "set (map fst (put k v ps)) = insert k (set (map fst ps))"
    unfolding keys_put by auto
  then show ?thesis by (simp only: set_map)
qed

lemma distinct_put: "distinct (map fst ps) \<Longrightarrow> distinct (map fst (put k v ps))"
  by (induction ps) (auto simp: dom_put)

text \<open>What the search along a prototype chain can meet.\<close>

lemma find_slot_unfold:
  "find_slot g p k =
     (if ident p = ident (Object_prototype g) \<and> k = ''__proto__'' then Setter
      else if k \<in> set (keys p) then Data
      else if ident p = Function_prototype_address g
              \<and> k \<in> {''length'', ''name'', ''caller'', ''arguments''} then ReadOnly
      else (case proto p of None \<Rightarrow> Absent | Some q \<Rightarrow> find_slot g q k))"
  by (cases p; cases "proto p") (auto simp: keys_def)

lemma find_slot_Setter: "find_slot g p k = Setter \<Longrightarrow> k = ''__proto__''"
  by (induction g p k rule: find_slot.induct) (auto split: if_splits)

lemma find_slot_proto_key: "find_slot g p ''__proto__'' \<noteq> ReadOnly"
  by (induction g p "''__proto__''" rule: find_slot.induct) (auto split: if_splits)

lemma find_slot_Object_prototype: "find_slot g (Object_prototype g) ''__proto__'' = Setter"
  by (simp add: find_slot_unfold [of g "Object_prototype g"])

lemma find_slot_function_object: "find_slot g (function_object g f) ''__proto__'' = Setter"
  by (simp add: function_object_def Function_prototype_def find_slot_Object_prototype)

lemma find_slot_standard:
  "standard g \<Longrightarrow> k \<noteq> ''__proto__'' \<Longrightarrow> find_slot g (Object_prototype g) k \<noteq> ReadOnly
     \<and> find_slot g (Object_prototype g) k \<noteq> Setter"
  by (simp add: find_slot_unfold [of g "Object_prototype g"] standard_def)

text \<open>An assignment under a key other than \<open>__proto__\<close> that returns has written the own
  property.\<close>

lemma set_prop_other:
  assumes "set_prop g ob k v = Inr ob'" and "k \<noteq> ''__proto__''"
  shows "ob' = Obj (ident ob) (proto ob) (put k v (props ob))"
proof -
  have "(if k \<in> set (keys ob) then Data
         else (case proto ob of None \<Rightarrow> Absent | Some p \<Rightarrow> find_slot g p k)) \<noteq> Setter"
    using assms(2) find_slot_Setter by (auto split: option.splits)
  then show ?thesis using assms(1)
    by (auto simp: set_prop_def split: slot.splits)
qed

lemma set_prop_standard:
  assumes "standard g" and "k \<noteq> ''__proto__''" and "proto ob = Some (Object_prototype g)"
  shows "set_prop g ob k v = Inr (Obj (ident ob) (proto ob) (put k v (props ob)))"
  using find_slot_standard [OF assms(1,2)] assms(3)
  by (auto simp: set_prop_def split: slot.splits)

text \<open>The mapping of the retained reducers: its own keys are pairwise different, none is
  \<open>__proto__\<close>, and the accessor \<open>__proto__\<close> is reached from it.\<close>

lemma set_prop_retained:
  assumes ok: "own_ok ob" and rs: "\<exists>p. proto ob = Some p \<and> find_slot g p ''__proto__'' = Setter"
    and r: "set_prop g ob k (VFun f) = Inr ob'"
  shows "own_ok ob' \<and> (\<exists>p. proto ob' = Some p \<and> find_slot g p ''__proto__'' = Setter)
     \<and> ident ob' = ident ob"
proof (cases "k = ''__proto__''")
  case True
  from rs obtain p where p: "proto ob = Some p" "find_slot g p ''__proto__'' = Setter" by auto
  have "k \<notin> set (keys ob)" using ok True by (simp add: own_ok_def)
  then have ob': "ob' = Obj (ident ob) (Some (function_object g f)) (props ob)"
    using r True p by (simp add: set_prop_def)
  show ?thesis using ok by (simp add: ob' own_ok_def keys_def find_slot_function_object)
next
  case False
  have ob': "ob' = Obj (ident ob) (proto ob) (put k (VFun f) (props ob))"
    using set_prop_other [OF r False] .
  have "own_ok ob'"
    using ok False by (simp add: ob' own_ok_def keys_def dom_put distinct_put)
  then show ?thesis using rs by (simp add: ob')
qed

lemma retain_ok:
  "retain g reducers ks final = Inr final' \<Longrightarrow> own_ok final \<Longrightarrow>
     \<exists>p. proto final = Some p \<and> find_slot g p ''__proto__'' = Setter \<Longrightarrow>
     own_ok final' \<and> ident final' = ident final"
proof (induction ks arbitrary: final)
  case Nil
  then show ?case by simp
next
  case (Cons key ks)
  show ?case
  proof (cases "typeof (get_prop reducers key) = ''function''")
    case False
    then show ?thesis using Cons by simp
  next
    case True
    then obtain f where f: "get_prop reducers key = VFun f" by (auto simp: typeof_function)
    from Cons.prems(1) True obtain mid where
      m: "set_prop g final key (VFun f) = Inr mid"
      and rest: "retain g reducers ks mid = Inr final'"
      by (auto simp: f split: sum.splits)
    from set_prop_retained [OF Cons.prems(2,3) m] Cons.IH [OF rest]
    show ?thesis by auto
  qed
qed

lemma retain_TypeError: "retain g reducers ks final = Inl e \<Longrightarrow> e = TypeError"
  by (induction ks arbitrary: final)
    (auto simp: set_prop_def split: if_splits sum.splits slot.splits)

lemma retain_standard:
  assumes std: "standard g"
    and np: "\<forall>k \<in> set ks. k = ''__proto__'' \<longrightarrow> typeof (get_prop reducers k) \<noteq> ''function''"
  shows "proto final = Some (Object_prototype g) \<Longrightarrow> \<exists>final'. retain g reducers ks final = Inr final'"
  using np
proof (induction ks arbitrary: final)
  case Nil
  then show ?case by simp
next
  case (Cons key ks)
  show ?case
  proof (cases "typeof (get_prop reducers key) = ''function''")
    case False
    then show ?thesis using Cons by simp
  next
    case True
    then have nk: "key \<noteq> ''__proto__''" using Cons.prems(2) by auto
    let ?mid = "Obj (ident final) (proto final) (put key (get_prop reducers key) (props final))"
    have m: "set_prop g final key (get_prop reducers key) = Inr ?mid"
      using set_prop_standard [OF std nk Cons.prems(1)] .
    have "\<exists>final'. retain g reducers ks ?mid = Inr final'"
      using Cons.prems by (intro Cons.IH) auto
    then show ?thesis using True m by simp
  qed
qed

lemma combineReducers_closure:
  assumes "combineReducers g fns reducers w0 = (Inr c, w1)"
  shows "finalReducerKeys c = keys (finalReducers c)" and "own_ok (finalReducers c)"
proof -
  let ?e = "Obj (next_ident w0) (Some (Object_prototype g)) []"
  from assms obtain final where f: "retain g reducers (keys reducers) ?e = Inr final"
    by (auto simp: combineReducers_def new_object_def Let_def split: sum.splits)
  obtain r w2 where a: "assertReducerShape g fns final (w0\<lparr>next_ident := Suc (next_ident w0)\<rparr>) = (r, w2)"
    by (cases "assertReducerShape g fns final (w0\<lparr>next_ident := Suc (next_ident w0)\<rparr>)")
  have c: "c = \<lparr> finalReducers = final, finalReducerKeys = keys final,
                shapeAssertionError = (case r of Inl e \<Rightarrow> Some e | Inr u \<Rightarrow> None) \<rparr>"
    using assms f a by (simp add: combineReducers_def new_object_def Let_def)
  show "finalReducerKeys c = keys (finalReducers c)" by (simp add: c)
  have "own_ok ?e" by (simp add: own_ok_def keys_def)
  moreover have "\<exists>p. proto ?e = Some p \<and> find_slot g p ''__proto__'' = Setter"
    by (simp add: find_slot_Object_prototype)
  ultimately show "own_ok (finalReducers c)"
    using retain_ok [OF f] by (simp add: c)
qed




lemma slices_keys:
  assumes "slices g fns c s action ks (hc, nxt) = Inr (hc', nxt')"
    and "distinct ks" and "''__proto__'' \<notin> set ks" and "set ks \<inter> set (keys nxt) = {}"
  shows "keys nxt' = keys nxt @ ks"
  using assms
proof (induction ks arbitrary: hc nxt)
  case Nil
  then show ?case by simp
next
  case (Cons key ks)
  from Cons.prems(1) obtain v mid where v: "slice_result fns c s action key = Inr v"
    and m: "set_prop g nxt key v = Inr mid"
    and rest: "slices g fns c s action ks (hc \<or> \<not> strict_eq v (get_prop s key), mid) = Inr (hc', nxt')"
    by (auto split: sum.splits if_splits)
  have nk: "key \<noteq> ''__proto__''" using Cons.prems(3) by auto
  have k: "keys mid = keys nxt @ [key]"
    using set_prop_other [OF m nk] Cons.prems(4) by (auto simp: keys_def keys_put)
  have "keys nxt' = keys mid @ ks"
    using Cons.prems(2,3,4) by (intro Cons.IH [OF rest]) (auto simp: k)
  then show ?case by (simp add: k)
qed




lemma combination_Some:
  "combination g fns c (Some s) action w =
     (case (case shapeAssertionError c of
              Some e \<Rightarrow> if truthy_error e then Some e else None
            | None \<Rightarrow> None) of
        Some e \<Rightarrow> (Inl e, w)
      | None \<Rightarrow>
          (case (if NODE_ENV g \<noteq> ''production''
                 then getUnexpectedStateShapeWarningMessage g fns s (finalReducers c) action
                 else Inr ()) of
             Inl e \<Rightarrow> (Inl e, w)
           | Inr u \<Rightarrow>
               (case slices g fns c s action (finalReducerKeys c)
                       (False, Obj (next_ident w) (Some (Object_prototype g)) []) of
                  Inl e \<Rightarrow> (Inl e, w\<lparr>next_ident := Suc (next_ident w)\<rparr>)
                | Inr (hasChanged, nextState') \<Rightarrow>
                    (Inr (if hasChanged \<or> length (finalReducerKeys c) \<noteq> length (keys s)
                          then nextState' else s),
                     w\<lparr>next_ident := Suc (next_ident w)\<rparr>))))"
  by (simp add: combination_def new_object_def Let_def
      split: option.splits sum.splits prod.splits)



text \<open>
  C10.  Whenever a combined reducer built by the combinator returns a mapping that is
  not the prior state it was handed, the keys of that mapping are the retained reducer
  keys, in their order: a key of the prior state that no retained reducer owns is absent
  from the result.
\<close>

theorem combination_key_set:
  assumes built: "combineReducers g fns reducers w0 = (Inr c, w1)"
    and ret: "combination g fns c state_arg action w = (Inr r, w')"
    and new: "state_arg \<noteq> Some r"
  shows "keys r = finalReducerKeys c
     \<and> (\<forall>key. key \<notin> set (finalReducerKeys c) \<longrightarrow> key \<notin> set (keys r))"
proof -
  have ok: "own_ok (finalReducers c)" and ks: "finalReducerKeys c = keys (finalReducers c)"
    using combineReducers_closure [OF built] by auto
  obtain state w0' where st: "(case state_arg of None \<Rightarrow> new_object g [] w | Some s \<Rightarrow> (s, w)) = (state, w0')"
    by (cases "case state_arg of None \<Rightarrow> new_object g [] w | Some s \<Rightarrow> (s, w)")
  obtain nxt w1' where nx: "new_object g [] w0' = (nxt, w1')"
    by (cases "new_object g [] w0'")
  have nk: "keys nxt = []" using nx by (auto simp: new_object_def keys_def)
  from ret obtain hc nxt' where
    run: "slices g fns c state action (finalReducerKeys c) (False, nxt) = Inr (hc, nxt')"
    and r: "r = (if hc \<or> length (finalReducerKeys c) \<noteq> length (keys state) then nxt' else state)"
    by (auto simp: combination_def st nx Let_def split: option.splits if_splits sum.splits)
  have nk': "keys nxt' = finalReducerKeys c"
    using slices_keys [OF run] ok by (simp add: ks own_ok_def nk)
  have "keys r = finalReducerKeys c"
  proof (cases "hc \<or> length (finalReducerKeys c) \<noteq> length (keys state)")
    case True
    then show ?thesis using r nk' by simp
  next
    case False
    then have rs: "r = state" and len: "length (finalReducerKeys c) = length (keys state)"
      using r by auto
    show ?thesis
    proof (cases state_arg)
      case None
      then have "keys state = []" using st by (auto simp: new_object_def keys_def)
      then show ?thesis using len rs by simp
    next
      case (Some s)
      then show ?thesis using st rs new by simp
    qed
  qed
  then show ?thesis by simp
qed

theorem combination_key_set_witness:
  "\<exists>r. combination ex_globals ex_fns ex_combined (Some ex_stale) (ex_action ''OTHER'')
          \<lparr>next_ident = 30, probe_calls = 2\<rparr> = (Inr r, \<lparr>next_ident = 31, probe_calls = 2\<rparr>)
      \<and> keys r = [''counter'', ''name'']
      \<and> ''old'' \<in> set (keys ex_stale)"
proof -
  let ?r = "Obj 30 (Some ex_Object_prototype) [(''counter'', VNum 4), (''name'', VStr ''n'')]"
  have run: "combination ex_globals ex_fns ex_combined (Some ex_stale) (ex_action ''OTHER'')
      \<lparr>next_ident = 30, probe_calls = 2\<rparr> = (Inr ?r, \<lparr>next_ident = 31, probe_calls = 2\<rparr>)"
    by (simp add: combination_Some ex_combined_def ex_stale_def ex_action_def ex_fns_def
        ex_globals_def slice_result_def call_reducer_def set_prop_def keys_def
        getUnexpectedStateShapeWarningMessage_def hasOwnProperty_call_def isPlainObject_def
        getPrototypeOf_def ex_Object_prototype_def)
  have new: "Some ex_stale \<noteq> Some ?r" by (simp add: ex_stale_def)
  from combination_key_set [OF ex_built run new]
  have "keys ?r = finalReducerKeys ex_combined" by simp
  then show ?thesis using run by (simp add: ex_fields ex_stale_def keys_def)
qed

text \<open>The shape assertion.\<close>

lemma assert_one_cases:
  assumes "\<forall>i. \<exists>v. call_reducer fns (get_prop final key) VUndefined (init_action g i) = Inr v"
    and "\<forall>n i. \<exists>v. call_reducer fns (get_prop final key) VUndefined (probe_action g n i) = Inr v"
  shows "(\<exists>w'. assert_one g fns final key w = (Inl (UndefinedDuringInit key), w'))
       \<or> (\<exists>w'. assert_one g fns final key w = (Inl (UndefinedWhenProbed key), w'))
       \<or> ((\<exists>w'. assert_one g fns final key w = (Inr (), w')) \<and> \<not> fails_probe g fns final key)"
proof -
  let ?a1 = "init_action g (next_ident w)"
  let ?a2 = "probe_action g (probe_calls w) (Suc (next_ident w))"
  obtain v1 where v1: "call_reducer fns (get_prop final key) VUndefined ?a1 = Inr v1"
    using assms(1) by blast
  obtain v2 where v2: "call_reducer fns (get_prop final key) VUndefined ?a2 = Inr v2"
    using assms(2) by blast
  have u: "\<And>v. typeof v = ''undefined'' \<longleftrightarrow> v = VUndefined"
    by (simp add: typeof_undefined)
  show ?thesis
  proof (cases "v1 = VUndefined")
    case True
    then show ?thesis using v1
      by (simp add: assert_one_def new_object_def init_action_def)
  next
    case n1: False
    show ?thesis
    proof (cases "v2 = VUndefined")
      case True
      then show ?thesis using v1 v2 n1
        by (simp add: assert_one_def new_object_def init_action_def probe_action_def
            PROBE_UNKNOWN_ACTION_def u)
    next
      case False
      have "call_reducer fns (get_prop final key) VUndefined ?a1 \<noteq> Inr VUndefined"
        using v1 n1 by simp
      moreover have "call_reducer fns (get_prop final key) VUndefined ?a2 \<noteq> Inr VUndefined"
        using v2 False by simp
      ultimately have "\<not> fails_probe g fns final key"
        unfolding fails_probe_def by blast
      then show ?thesis using v1 v2 n1 False
        by (simp add: assert_one_def new_object_def init_action_def probe_action_def
            PROBE_UNKNOWN_ACTION_def u)
    qed
  qed
qed

lemma assert_each_fails:
  assumes "never_throws g fns final ks" and "\<exists>key \<in> set ks. fails_probe g fns final key"
  shows "\<exists>key \<in> set ks. \<exists>w'.
           assert_each g fns final ks w = (Inl (UndefinedDuringInit key), w')
         \<or> assert_each g fns final ks w = (Inl (UndefinedWhenProbed key), w')"
  using assms
proof (induction ks arbitrary: w)
  case Nil
  then show ?case by simp
next
  case (Cons key ks)
  have nt: "\<forall>i. \<exists>v. call_reducer fns (get_prop final key) VUndefined (init_action g i) = Inr v"
    "\<forall>n i. \<exists>v. call_reducer fns (get_prop final key) VUndefined (probe_action g n i) = Inr v"
    using Cons.prems(1) by (simp_all add: never_throws_def)
  from assert_one_cases [OF nt, of w]
  consider (init) w' where "assert_one g fns final key w = (Inl (UndefinedDuringInit key), w')"
    | (probe) w' where "assert_one g fns final key w = (Inl (UndefinedWhenProbed key), w')"
    | (pass) w' where "assert_one g fns final key w = (Inr (), w')" "\<not> fails_probe g fns final key"
    by blast
  then show ?case
  proof cases
    case init
    then show ?thesis by auto
  next
    case probe
    then show ?thesis by auto
  next
    case pass
    have "never_throws g fns final ks" using Cons.prems(1) by (simp add: never_throws_def)
    moreover have "\<exists>key \<in> set ks. fails_probe g fns final key"
      using Cons.prems(2) pass(2) by auto
    ultimately obtain k w'' where "k \<in> set ks"
      "assert_each g fns final ks w' = (Inl (UndefinedDuringInit k), w'')
       \<or> assert_each g fns final ks w' = (Inl (UndefinedWhenProbed k), w'')"
      using Cons.IH [of w'] by blast
    then show ?thesis using pass(1) by auto
  qed
qed

lemma combineReducers_cases:
  "(\<exists>w1. combineReducers g fns reducers w0 = (Inl TypeError, w1)
        \<and> (\<forall>final. retain g reducers (keys reducers)
                      (Obj (next_ident w0) (Some (Object_prototype g)) []) \<noteq> Inr final))
   \<or> (\<exists>final r w2.
        retain g reducers (keys reducers) (Obj (next_ident w0) (Some (Object_prototype g)) [])
          = Inr final
        \<and> assertReducerShape g fns final (w0\<lparr>next_ident := Suc (next_ident w0)\<rparr>) = (r, w2)
        \<and> combineReducers g fns reducers w0 =
            (Inr \<lparr> finalReducers = final, finalReducerKeys = keys final,
                   shapeAssertionError = (case r of Inl e \<Rightarrow> Some e | Inr u \<Rightarrow> None) \<rparr>, w2))"
proof (cases "retain g reducers (keys reducers) (Obj (next_ident w0) (Some (Object_prototype g)) [])")
  case (Inl e)
  then have "e = TypeError" by (rule retain_TypeError)
  then show ?thesis using Inl by (simp add: combineReducers_def new_object_def)
next
  case (Inr final)
  obtain r w2 where "assertReducerShape g fns final (w0\<lparr>next_ident := Suc (next_ident w0)\<rparr>) = (r, w2)"
    by (cases "assertReducerShape g fns final (w0\<lparr>next_ident := Suc (next_ident w0)\<rparr>)")
  then show ?thesis using Inr by (simp add: combineReducers_def new_object_def)
qed

text \<open>
  C2 (as amended).  The combinator does not fail with the error of the shape assertion:
  it catches that error and keeps it, and the only exception that escapes it is a
  \<open>TypeError\<close> of the assignments that retain the reducers.  In standard surroundings
  the combinator returns whenever no function is stored under the key \<open>__proto__\<close>.
  When it returns, no retained slice reducer throws on the init action and the probe
  with an undefined prior state, and one of them answers \<open>undefined\<close> to the init action
  or to the probe, then the kept error is the shape error of a retained key, and every
  call of the combined reducer fails with that error.
\<close>

theorem combineReducers_defers_shape_error:
  "(\<forall>e w1. combineReducers g fns reducers w0 = (Inl e, w1) \<longrightarrow> e = TypeError)
   \<and> (standard g
        \<and> (''__proto__'' \<in> set (keys reducers)
             \<longrightarrow> typeof (get_prop reducers ''__proto__'') \<noteq> ''function'')
      \<longrightarrow> (\<exists>c w1. combineReducers g fns reducers w0 = (Inr c, w1)))
   \<and> (\<forall>c w1. combineReducers g fns reducers w0 = (Inr c, w1)
          \<and> never_throws g fns (finalReducers c) (finalReducerKeys c)
          \<and> (\<exists>key \<in> set (finalReducerKeys c). fails_probe g fns (finalReducers c) key)
        \<longrightarrow> (\<exists>key \<in> set (finalReducerKeys c).
                shapeAssertionError c = Some (UndefinedDuringInit key)
              \<or> shapeAssertionError c = Some (UndefinedWhenProbed key))
          \<and> (\<forall>state action w. \<exists>e w'.
                shapeAssertionError c = Some e
              \<and> combination g fns c state action w = (Inl e, w')))"
proof -
  let ?e = "Obj (next_ident w0) (Some (Object_prototype g)) []"
  have one: "e = TypeError" if "combineReducers g fns reducers w0 = (Inl e, w1)" for e w1
    using combineReducers_cases [of g fns reducers w0] that by auto
  have two: "\<exists>c w1. combineReducers g fns reducers w0 = (Inr c, w1)"
    if std: "standard g"
      and np: "''__proto__'' \<in> set (keys reducers)
                 \<longrightarrow> typeof (get_prop reducers ''__proto__'') \<noteq> ''function''"
  proof -
    have "\<exists>final. retain g reducers (keys reducers) ?e = Inr final"
      using np by (intro retain_standard [OF std]) auto
    then show ?thesis using combineReducers_cases [of g fns reducers w0] by auto
  qed
  have three: "(\<exists>key \<in> set (finalReducerKeys c).
                shapeAssertionError c = Some (UndefinedDuringInit key)
              \<or> shapeAssertionError c = Some (UndefinedWhenProbed key))
          \<and> (\<forall>state action w. \<exists>e w'.
                shapeAssertionError c = Some e
              \<and> combination g fns c state action w = (Inl e, w'))"
    if built: "combineReducers g fns reducers w0 = (Inr c, w1)"
      and nt: "never_throws g fns (finalReducers c) (finalReducerKeys c)"
      and bad: "\<exists>key \<in> set (finalReducerKeys c). fails_probe g fns (finalReducers c) key"
    for c w1
  proof -
    from combineReducers_cases [of g fns reducers w0] built obtain final r where
      a: "assertReducerShape g fns final (w0\<lparr>next_ident := Suc (next_ident w0)\<rparr>) = (r, w1)"
      and c: "c = \<lparr> finalReducers = final, finalReducerKeys = keys final,
                    shapeAssertionError = (case r of Inl e \<Rightarrow> Some e | Inr u \<Rightarrow> None) \<rparr>"
      by auto
    have nt': "never_throws g fns final (keys final)" using nt by (simp add: c)
    have bad': "\<exists>key \<in> set (keys final). fails_probe g fns final key" using bad by (simp add: c)
    from assert_each_fails [OF nt' bad', of "w0\<lparr>next_ident := Suc (next_ident w0)\<rparr>"] a
    obtain key where key: "key \<in> set (keys final)"
      "r = Inl (UndefinedDuringInit key) \<or> r = Inl (UndefinedWhenProbed key)"
      by (auto simp: assertReducerShape_def)
    then obtain e where e: "shapeAssertionError c = Some e" "truthy_error e"
      by (auto simp: c)
    have "\<exists>w'. combination g fns c state action w = (Inl e, w')" for state action w
      using e by (simp add: combination_def split: prod.splits option.splits)
    then show ?thesis using key e by (auto simp: c)
  qed
  show ?thesis using one two three by blast
qed

text \<open>
  The claim as stated fails: for a mapping whose reducer answers \<open>undefined\<close> to the
  init action, the call of the combinator returns a combined reducer.
\<close>

theorem combineReducers_fails_fast_counterexample:
  "call_reducer ex_fns (get_prop ex_broken ''broken'') VUndefined (init_action ex_globals 21)
     = Inr VUndefined
   \<and> combineReducers ex_globals ex_fns ex_broken \<lparr>next_ident = 20, probe_calls = 0\<rparr> =
     (Inr \<lparr> finalReducers = Obj 20 (Some ex_Object_prototype) [(''broken'', VFun 2)],
            finalReducerKeys = [''broken''],
            shapeAssertionError = Some (UndefinedDuringInit ''broken'') \<rparr>,
      \<lparr>next_ident = 22, probe_calls = 0\<rparr>)"
  using ex_broken_built
  by (simp add: ex_broken_combined_def call_reducer_def ex_broken_def ex_fns_def)

theorem combineReducers_defers_shape_error_witness:
  "\<exists>c w1. combineReducers ex_globals ex_fns ex_broken \<lparr>next_ident = 20, probe_calls = 0\<rparr>
            = (Inr c, w1)
     \<and> (\<exists>w'. combination ex_globals ex_fns c (Some ex_state) (ex_action ''INCREMENT'')
                \<lparr>next_ident = 30, probe_calls = 0\<rparr> = (Inl (UndefinedDuringInit ''broken''), w'))"
proof -
  have f: "finalReducers ex_broken_combined = Obj 20 (Some ex_Object_prototype) [(''broken'', VFun 2)]"
    "finalReducerKeys ex_broken_combined = [''broken'']"
    "shapeAssertionError ex_broken_combined = Some (UndefinedDuringInit ''broken'')"
    by (simp_all add: ex_broken_combined_def)
  have nt: "never_throws ex_globals ex_fns (finalReducers ex_broken_combined)
              (finalReducerKeys ex_broken_combined)"
    by (simp add: never_throws_def f call_reducer_def ex_fns_def)
  have bad: "\<exists>key \<in> set (finalReducerKeys ex_broken_combined).
               fails_probe ex_globals ex_fns (finalReducers ex_broken_combined) key"
    by (simp add: fails_probe_def f call_reducer_def ex_fns_def)
  have np: "''__proto__'' \<in> set (keys ex_broken)
              \<longrightarrow> typeof (get_prop ex_broken ''__proto__'') \<noteq> ''function''"
    by (simp add: ex_broken_def keys_def)
  note T = combineReducers_defers_shape_error
         [of ex_globals ex_fns ex_broken "\<lparr>next_ident = 20, probe_calls = 0\<rparr>"]
  from T ex_standard np obtain c w1 where
    built: "combineReducers ex_globals ex_fns ex_broken \<lparr>next_ident = 20, probe_calls = 0\<rparr>
              = (Inr c, w1)"
    by blast
  then have c: "c = ex_broken_combined" using ex_broken_built by simp
  from T built nt bad have
    "\<forall>state action w. \<exists>e w'.
        shapeAssertionError c = Some e
      \<and> combination ex_globals ex_fns c state action w = (Inl e, w')"
    unfolding c by blast
  then obtain e w' where e: "shapeAssertionError c = Some e"
    and call: "combination ex_globals ex_fns c (Some ex_state) (ex_action ''INCREMENT'')
                 \<lparr>next_ident = 30, probe_calls = 0\<rparr> = (Inl e, w')"
    by blast
  have "e = UndefinedDuringInit ''broken''" using e by (simp add: c f)
  then show ?thesis using built call by blast
qed

section \<open>Properties of the store\<close>


lemma dispatch_busy_same:
  "isDispatching s \<Longrightarrow> dispatch n g code a s = Some (x, s') \<Longrightarrow> s' = s"
  by (cases n) (auto simp: dispatch_body_def split: if_splits)

lemma run_cmd_busy:
  assumes "isDispatching s" and "run_cmd (dispatch n g code) g c s = Some (x, s')"
  shows "busy_frame s s'"
proof (cases c)
  case GetState
  then show ?thesis using assms by (auto simp: busy_frame_def)
next
  case (Dispatch a)
  then obtain y where "dispatch n g code a s = Some (y, s')"
    using assms by (auto split: option.splits sum.splits)
  from dispatch_busy_same [OF assms(1) this] show ?thesis
    by (simp add: busy_frame_def)
next
  case (Subscribe l)
  then show ?thesis using assms
    by (auto simp: busy_frame_def subscribe_def split: if_splits prod.splits sum.splits)
next
  case (Unsubscribe k)
  then show ?thesis using assms
    by (auto simp: busy_frame_def unsubscribe_def split: if_splits prod.splits sum.splits)
next
  case (ReplaceReducer r)
  show ?thesis
  proof (cases "typeof r = ''function''")
    case False
    then show ?thesis using assms ReplaceReducer
      by (auto simp: busy_frame_def replaceReducer_def)
  next
    case True
    obtain a h where nh: "new_object g [(''type'', VStr (REPLACE g))] (heap s) = (a, h)"
      by (cases "new_object g [(''type'', VStr (REPLACE g))] (heap s)")
    let ?s1 = "s\<lparr> currentReducer := r, heap := h \<rparr>"
    from assms ReplaceReducer True nh obtain y where
      d: "dispatch n g code (VObj a) ?s1 = Some (y, s')"
      by (auto simp: replaceReducer_def split: option.splits sum.splits)
    have "isDispatching ?s1" using assms(1) by simp
    from dispatch_busy_same [OF this d] show ?thesis
      by (simp add: busy_frame_def)
  qed
qed

lemma run_prog_busy:
  "isDispatching s \<Longrightarrow> run_prog (dispatch n g code) g p s = Some (x, s') \<Longrightarrow> busy_frame s s'"
proof (induction p arbitrary: s)
  case (Return v)
  then show ?case by (simp add: busy_frame_def)
next
  case (Throw e)
  then show ?case by (simp add: busy_frame_def)
next
  case (Call c k)
  from Call.prems(2) obtain y s1 where
    c: "run_cmd (dispatch n g code) g c s = Some (y, s1)"
    and rest: "run_prog (dispatch n g code) g (k y) s1 = Some (x, s')"
    by (auto split: option.splits)
  have f1: "busy_frame s s1" using run_cmd_busy [OF Call.prems(1) c] .
  then have "isDispatching s1" using Call.prems(1) by (simp add: busy_frame_def)
  from Call.IH [OF rangeI this rest] f1 show ?case by (simp add: busy_frame_def)
qed

lemma busy_frame_refl: "busy_frame s s"
  by (simp add: busy_frame_def)

lemma call_function_busy:
  "isDispatching s \<Longrightarrow> call_function (dispatch n g code) g code f args s = Some (x, s')
     \<Longrightarrow> busy_frame s s'"
  by (cases f) (auto simp: call_function_def busy_frame_refl dest: run_prog_busy)

lemma notify_quiet:
  assumes "\<forall>l \<in> set (drop i (arrays s ! r)). quiet code l" and "length (arrays s ! r) - i < fuel"
  shows "notify fuel D g code r i s =
           Some (Inr (), s\<lparr> invoked := invoked s @ drop i (arrays s ! r) \<rparr>)"
  using assms
proof (induction fuel arbitrary: i s)
  case 0
  then show ?case by simp
next
  case (Suc fuel)
  show ?case
  proof (cases "i < length (arrays s ! r)")
    case False
    then show ?thesis by simp
  next
    case True
    let ?l = "arrays s ! r ! i"
    let ?s1 = "s\<lparr> invoked := invoked s @ [?l] \<rparr>"
    have "?l \<in> set (drop i (arrays s ! r))"
      using True by (metis Cons_nth_drop_Suc list.set_intros(1))
    then have "quiet code ?l" using Suc.prems(1) by blast
    then obtain rv where call: "call_function D g code ?l [] ?s1 = Some (Inr rv, ?s1)"
      by (auto simp: quiet_def call_function_def)
    have a: "\<forall>l \<in> set (drop (Suc i) (arrays ?s1 ! r)). quiet code l"
      using Suc.prems(1) set_drop_subset_set_drop [of i "Suc i" "arrays s ! r"] by auto
    have b: "length (arrays ?s1 ! r) - Suc i < fuel"
      using Suc.prems(2) True by simp
    have "notify fuel D g code r (Suc i) ?s1 =
        Some (Inr (), ?s1\<lparr> invoked := invoked ?s1 @ drop (Suc i) (arrays ?s1 ! r) \<rparr>)"
      by (rule Suc.IH [OF a b])
    then show ?thesis using True call
      by (simp add: Cons_nth_drop_Suc [symmetric])
  qed
qed

lemma dispatch_quiet:
  assumes acc: "accepted a" and idle: "\<not> isDispatching s"
    and red: "currentReducer s = VFun r" "code r [currentState s, a] = Return st"
    and q: "\<forall>l \<in> set (arrays s ! nextListeners s). quiet code l"
    and len: "length (arrays s ! nextListeners s) \<le> n"
  shows "dispatch (Suc n) g code a s =
            Some (Inr a, s\<lparr> currentState := st,
                            currentListeners := Some (nextListeners s),
                            invoked := invoked s @ arrays s ! nextListeners s \<rparr>)"
proof -
  let ?s3 = "s\<lparr> isDispatching := True, currentState := st, isDispatching := False,
                currentListeners := Some (nextListeners s) \<rparr>"
  have call: "call_function (dispatch n g code) g code (currentReducer s) [currentState s, a]
      (s\<lparr> isDispatching := True \<rparr>) = Some (Inr st, s\<lparr> isDispatching := True \<rparr>)"
    using red by (simp add: call_function_def)
  have n: "notify (Suc n) (dispatch n g code) g code (nextListeners s) 0 ?s3 =
      Some (Inr (), ?s3\<lparr> invoked := invoked ?s3 @ drop 0 (arrays ?s3 ! nextListeners s) \<rparr>)"
    using q len by (intro notify_quiet) auto
  show ?thesis
    using acc idle call n
    by (simp add: dispatch_body_def accepted_def Let_def del: notify.simps)
qed





text \<open>
  C4.  When the transition function raises during the dispatch of an accepted action, the
  dispatch fails with that exception, and in the store it leaves the dispatching flag is
  reset and the state, as \<open>getState\<close> returns it, is the state from before the dispatch.
  A later dispatch of an accepted action is not rejected: when the transition function
  returns for it and the pending listeners make no store call, it commits the new state
  and returns the action.
\<close>

theorem failed_dispatch_keeps_state:
  assumes acc: "accepted a" and idle: "\<not> isDispatching s"
    and raises: "call_function (dispatch n g code) g code (currentReducer s) [currentState s, a]
                   (s\<lparr> isDispatching := True \<rparr>) = Some (Inl e, s1)"
  shows "\<exists>s'. dispatch (Suc n) g code a s = Some (Inl e, s')
     \<and> \<not> isDispatching s'
     \<and> currentState s' = currentState s
     \<and> getState s' = Inr (currentState s)
     \<and> (\<forall>a2 r2 st m.
           accepted a2 \<and> currentReducer s' = VFun r2 \<and> code r2 [currentState s', a2] = Return st
           \<and> (\<forall>l \<in> set (arrays s' ! nextListeners s'). quiet code l)
           \<and> length (arrays s' ! nextListeners s') \<le> m
           \<longrightarrow> dispatch (Suc m) g code a2 s' =
                 Some (Inr a2, s'\<lparr> currentState := st,
                                   currentListeners := Some (nextListeners s'),
                                   invoked := invoked s' @ arrays s' ! nextListeners s' \<rparr>))"
proof -
  let ?s' = "s1\<lparr> isDispatching := False \<rparr>"
  have busy: "isDispatching (s\<lparr> isDispatching := True \<rparr>)" by simp
  have fr: "busy_frame (s\<lparr> isDispatching := True \<rparr>) s1"
    using call_function_busy [OF busy raises] .
  have d: "dispatch (Suc n) g code a s = Some (Inl e, ?s')"
    using acc idle raises by (simp add: dispatch_body_def accepted_def)
  have st: "currentState ?s' = currentState s" using fr by (simp add: busy_frame_def)
  have idle': "\<not> isDispatching ?s'" by simp
  have gs: "getState ?s' = Inr (currentState s)" using st by (simp add: getState_def)
  have nxt: "dispatch (Suc m) g code a2 ?s' =
      Some (Inr a2, ?s'\<lparr> currentState := st,
                         currentListeners := Some (nextListeners ?s'),
                         invoked := invoked ?s' @ arrays ?s' ! nextListeners ?s' \<rparr>)"
    if "accepted a2" "currentReducer ?s' = VFun r2" "code r2 [currentState ?s', a2] = Return st"
      "\<forall>l \<in> set (arrays ?s' ! nextListeners ?s'). quiet code l"
      "length (arrays ?s' ! nextListeners ?s') \<le> m" for a2 r2 st m
    using that by (intro dispatch_quiet [where r = r2] idle') auto
  show ?thesis
    using d idle' st gs nxt by blast
qed

theorem failed_dispatch_keeps_state_witness:
  "dispatch 1 ex_globals ex_code (ex_action ''FAIL'') ex_store
     = Some (Inl (Thrown (VStr ''boom'')), ex_store)
   \<and> getState ex_store = Inr (VNum 0)
   \<and> dispatch 1 ex_globals ex_code (ex_action ''INCREMENT'') ex_store
       = Some (Inr (ex_action ''INCREMENT''), ex_store\<lparr> currentState := VNum 1 \<rparr>)"
proof -
  have idle: "\<not> isDispatching ex_store" by (simp add: ex_store_def)
  have raises: "call_function (dispatch 0 ex_globals ex_code) ex_globals ex_code
      (currentReducer ex_store) [currentState ex_store, ex_action ''FAIL'']
      (ex_store\<lparr> isDispatching := True \<rparr>)
      = Some (Inl (Thrown (VStr ''boom'')), ex_store\<lparr> isDispatching := True \<rparr>)"
    by (simp add: call_function_def ex_store_def ex_code_def ex_action_def ex_Object_prototype_def)
  from failed_dispatch_keeps_state [OF ex_accepted idle raises]
  obtain s' where s': "dispatch 1 ex_globals ex_code (ex_action ''FAIL'') ex_store
        = Some (Inl (Thrown (VStr ''boom'')), s')"
    "getState s' = Inr (currentState ex_store)"
    by auto
  have same: "s' = ex_store"
    using s'(1) by (simp add: dispatch_body_def ex_store_def ex_code_def ex_action_def ex_Object_prototype_def
        isPlainObject_def getPrototypeOf_def call_function_def)
  have inc: "dispatch 1 ex_globals ex_code (ex_action ''INCREMENT'') ex_store
       = Some (Inr (ex_action ''INCREMENT''), ex_store\<lparr> currentState := VNum 1 \<rparr>)"
    by (simp add: dispatch_body_def ex_store_def ex_code_def ex_action_def ex_Object_prototype_def
        isPlainObject_def getPrototypeOf_def call_function_def)
  show ?thesis using s' same inc by (simp add: ex_store_def)
qed

section \<open>The listener snapshot\<close>

lemma strict_eq_fun: "strict_eq x (VFun f) \<longleftrightarrow> x = VFun f"
  by (cases x) auto

lemma indexOf_absent: "VFun f \<notin> set xs \<Longrightarrow> indexOf xs (VFun f) = - 1"
  by (induction xs) (auto simp: strict_eq_fun)

lemma indexOf_nonneg: "VFun f \<in> set xs \<Longrightarrow> 0 \<le> indexOf xs (VFun f)"
  by (induction xs) (auto simp: strict_eq_fun Let_def)

lemma splice1_remove1:
  "VFun f \<in> set xs \<Longrightarrow> splice1 (indexOf xs (VFun f)) xs = remove1 (VFun f) xs"
proof (induction xs)
  case Nil
  then show ?case by simp
next
  case (Cons x xs)
  show ?case
  proof (cases "x = VFun f")
    case True
    then show ?thesis by (simp add: splice1_def)
  next
    case False
    then have mem: "VFun f \<in> set xs" using Cons.prems by simp
    have nn: "0 \<le> indexOf xs (VFun f)" using indexOf_nonneg [OF mem] .
    have ih: "splice1 (indexOf xs (VFun f)) xs = remove1 (VFun f) xs" using Cons.IH [OF mem] .
    have "splice1 (indexOf xs (VFun f) + 1) (x # xs) = x # splice1 (indexOf xs (VFun f)) xs"
      using nn by (simp add: splice1_def Let_def nat_add_distrib min_def)
    then show ?thesis using False nn ih by (simp add: strict_eq_fun Let_def)
  qed
qed

lemma set_splice1: "set (splice1 i xs) \<subseteq> set xs"
  by (auto simp: splice1_def Let_def dest: in_set_takeD in_set_dropD)

lemma active_cancel:
  "k < length xs \<Longrightarrow> xs ! k = (l, True) \<Longrightarrow>
     mset (map fst (filter snd (xs[k := (l, False)]))) = mset (map fst (filter snd xs)) - {#l#}"
proof (induction xs arbitrary: k)
  case Nil
  then show ?case by simp
next
  case (Cons x xs)
  show ?case
  proof (cases k)
    case 0
    then show ?thesis using Cons.prems by simp
  next
    case (Suc j)
    then have "mset (map fst (filter snd (xs[j := (l, False)]))) = mset (map fst (filter snd xs)) - {#l#}"
      using Cons.prems by (intro Cons.IH) auto
    moreover have "l \<in># mset (map fst (filter snd xs))"
      using Cons.prems Suc by (auto simp: in_set_conv_nth intro!: image_eqI [where x = "(l, True)"])
    ultimately show ?thesis using Suc by (cases "snd x") auto
  qed
qed


lemma later_refl: "engine_inv s \<Longrightarrow> later B s s"
  by (auto simp: later_def)

lemma later_subs:
  assumes "later B s s'" and "k < length (subscriptions s)"
  shows "k < length (subscriptions s')" and "fst (subscriptions s' ! k) = fst (subscriptions s ! k)"
    and "snd (subscriptions s' ! k) \<Longrightarrow> snd (subscriptions s ! k)"
  using assms by (auto simp: later_def)

lemma later_trans:
  assumes a: "later B s s1" and b: "later B s1 s2"
  shows "later B s s2"
proof -
  have inv: "engine_inv s2" using b by (simp add: later_def)
  have len: "length (subscriptions s) \<le> length (subscriptions s2)"
    using a b by (simp add: later_def)
  have old: "fst (subscriptions s2 ! k) = fst (subscriptions s ! k)
           \<and> (snd (subscriptions s2 ! k) \<longrightarrow> snd (subscriptions s ! k))"
    if "k < length (subscriptions s)" for k
    using later_subs [OF a that] later_subs [OF b, of k] by auto
  have new: "fst (subscriptions s2 ! k) \<noteq> B"
    if "length (subscriptions s) \<le> k" "k < length (subscriptions s2)" for k
  proof (cases "k < length (subscriptions s1)")
    case True
    then have "fst (subscriptions s1 ! k) \<noteq> B" using a that by (simp add: later_def)
    then show ?thesis using later_subs(2) [OF b True] by simp
  next
    case False
    then show ?thesis using b that by (simp add: later_def)
  qed
  have pre: "\<exists>more. invoked s2 = invoked s @ more" using a b by (auto simp: later_def)
  have it: "\<forall>r L. iterating r L s \<longrightarrow> iterating r L s2" using a b by (simp add: later_def)
  have nb: "B \<notin> set (pending s) \<longrightarrow> B \<notin> set (pending s2)" using a b by (simp add: later_def)
  show ?thesis
    unfolding later_def using inv len old new pre it nb by blast
qed

lemma called_between_append:
  "later B s s1 \<Longrightarrow> later B s1 s2 \<Longrightarrow>
     called_between s s2 = called_between s s1 @ called_between s1 s2"
  by (auto simp: later_def called_between_def)

lemma ok_step_refl: "engine_inv s \<Longrightarrow> ok_step B s s"
  by (simp add: ok_step_def later_refl called_between_def)

lemma ok_step_trans:
  assumes "ok_step B s s1" and "ok_step B s1 s2"
  shows "ok_step B s s2"
proof -
  have l: "later B s s2" using assms later_trans by (auto simp: ok_step_def)
  have "B \<notin> set (called_between s s2)" if "B \<notin> set (pending s)"
  proof -
    have "B \<notin> set (pending s1)" using assms(1) that by (simp add: ok_step_def later_def)
    then show ?thesis
      using assms that called_between_append [of B s s1 s2] by (simp add: ok_step_def)
  qed
  then show ?thesis using l by (simp add: ok_step_def)
qed


text \<open>Stores that agree on the listener lists and subscriptions.\<close>

lemma later_same_lists:
  assumes "engine_inv s" and "arrays s' = arrays s" and "nextListeners s' = nextListeners s"
    and "subscriptions s' = subscriptions s"
    and "\<exists>more. invoked s' = invoked s @ more"
    and "currentListeners s' = currentListeners s \<or> currentListeners s' = Some (nextListeners s)"
  shows "later B s s'"
  using assms unfolding later_def engine_inv_def iterating_def pending_def active_def
  by auto

lemma ensure_fields:
  "subscriptions (ensureCanMutateNextListeners s) = subscriptions s"
  "invoked (ensureCanMutateNextListeners s) = invoked s"
  "isDispatching (ensureCanMutateNextListeners s) = isDispatching s"
  "currentListeners (ensureCanMutateNextListeners s) = currentListeners s"
  "length (arrays s) \<le> length (arrays (ensureCanMutateNextListeners s))"
  by (auto simp: ensureCanMutateNextListeners_def)

lemma ensure_pending:
  "nextListeners s < length (arrays s) \<Longrightarrow>
     nextListeners (ensureCanMutateNextListeners s) < length (arrays (ensureCanMutateNextListeners s))
     \<and> pending (ensureCanMutateNextListeners s) = pending s"
  by (auto simp: ensureCanMutateNextListeners_def pending_def nth_append)

lemma ensure_old_arrays:
  "r < length (arrays s) \<Longrightarrow> arrays (ensureCanMutateNextListeners s) ! r = arrays s ! r"
  by (auto simp: ensureCanMutateNextListeners_def nth_append)

lemma ensure_iterating:
  assumes "iterating r L s"
  shows "nextListeners (ensureCanMutateNextListeners s) \<noteq> r"
  using assms by (auto simp: ensureCanMutateNextListeners_def iterating_def)

text \<open>Replacing the pending array of a store whose pending reference is not being
  iterated.\<close>

lemma write_pending_iterating:
  assumes it: "iterating r L s0" and s2: "s2 = ensureCanMutateNextListeners s1"
    and same: "arrays s1 = arrays s0" "nextListeners s1 = nextListeners s0"
      "currentListeners s1 = currentListeners s0"
    and s3: "arrays s3 = (arrays s2)[nextListeners s2 := xs]" "nextListeners s3 = nextListeners s2"
  shows "iterating r L s3"
proof -
  have it1: "iterating r L s1" using it same by (simp add: iterating_def)
  have ne: "nextListeners s2 \<noteq> r" using ensure_iterating [OF it1] s2 by simp
  have r: "r < length (arrays s1)" "arrays s1 ! r = L" using it1 by (auto simp: iterating_def)
  have "arrays s2 ! r = L" using ensure_old_arrays [OF r(1)] r(2) s2 by simp
  moreover have "r < length (arrays s2)" using ensure_fields(5) [of s1] r(1) s2 by simp
  ultimately show ?thesis using ne s3 by (simp add: iterating_def)
qed

lemma subscribe_later:
  assumes inv: "engine_inv s" and l: "l \<noteq> B" and r: "subscribe l s = (x, s')"
  shows "later B s s'" and "invoked s' = invoked s"
proof -
  show i: "invoked s' = invoked s"
    using r by (auto simp: subscribe_def Let_def ensure_fields split: if_splits)
  show "later B s s'"
  proof (cases "typeof l \<noteq> ''function'' \<or> isDispatching s")
    case True
    then have "s' = s" using r by (auto simp: subscribe_def split: if_splits)
    then show ?thesis using later_refl [OF inv] by simp
  next
    case False
    then obtain f where f: "l = VFun f" by (auto simp: typeof_function)
    let ?s1 = "s\<lparr> subscriptions := subscriptions s @ [(l, True)] \<rparr>"
    let ?s2 = "ensureCanMutateNextListeners ?s1"
    have s': "s' = ?s2\<lparr> arrays := (arrays ?s2)[nextListeners ?s2 := arrays ?s2 ! nextListeners ?s2 @ [l]] \<rparr>"
      using r False by (simp add: subscribe_def Let_def)
    have nx: "nextListeners s < length (arrays s)" using inv by (simp add: engine_inv_def)
    have e: "nextListeners ?s2 < length (arrays ?s2)" "pending ?s2 = pending s"
      using ensure_pending [of ?s1] nx by (auto simp: pending_def)
    have p': "pending s' = pending s @ [l]"
      using e by (simp add: s' pending_def)
    have subs: "subscriptions s' = subscriptions s @ [(l, True)]"
      by (simp add: s' ensure_fields)
    have inv': "engine_inv s'"
      using inv e f unfolding engine_inv_def p' subs active_def
      by (auto simp: s')
    have it: "iterating r L s'" if "iterating r L s" for r L
      using that by (rule write_pending_iterating [where ?s1.0 = ?s1 and ?s2.0 = ?s2])
        (simp_all add: s')
    show ?thesis
      unfolding later_def
      using inv' it i l p' subs by (auto simp: s' ensure_fields nth_append)
  qed
qed


lemma unsubscribe_later:
  assumes inv: "engine_inv s" and r: "unsubscribe k s = (x, s')"
  shows "later B s s'" and "invoked s' = invoked s"
    and "x = Inr v \<Longrightarrow> k < length (subscriptions s') \<and> \<not> snd (subscriptions s' ! k)"
proof -
  let ?l = "fst (subscriptions s ! k)"
  let ?go = "k < length (subscriptions s) \<and> snd (subscriptions s ! k) \<and> \<not> isDispatching s"
  let ?s1 = "s\<lparr> subscriptions := (subscriptions s)[k := (?l, False)] \<rparr>"
  let ?s2 = "ensureCanMutateNextListeners ?s1"
  let ?s3 = "?s2\<lparr> arrays := (arrays ?s2)
                  [nextListeners ?s2 := splice1 (indexOf (arrays ?s2 ! nextListeners ?s2) ?l)
                                          (arrays ?s2 ! nextListeners ?s2)] \<rparr>"
  have stay: "s' = s" if "\<not> ?go"
    using r that by (auto simp: unsubscribe_def case_prod_beta split: if_splits)
  have go: "s' = ?s3\<lparr> currentListeners := None \<rparr>" "x = Inr VUndefined" if "?go"
    using r that by (auto simp: unsubscribe_def case_prod_beta Let_def)
  show "invoked s' = invoked s"
    using stay go by (cases "?go") (auto simp: ensure_fields)
  show "k < length (subscriptions s') \<and> \<not> snd (subscriptions s' ! k)" if "x = Inr v"
  proof (cases "?go")
    case True
    then show ?thesis using go by (simp add: ensure_fields)
  next
    case False
    then show ?thesis using r that stay
      by (auto simp: unsubscribe_def case_prod_beta split: if_splits)
  qed
  show "later B s s'"
  proof (cases "?go")
    case False
    then show ?thesis using stay later_refl [OF inv] by simp
  next
    case True
    obtain f where f: "?l = VFun f"
      using inv True by (auto simp: engine_inv_def dest!: nth_mem)
    have entry: "subscriptions s ! k = (?l, True)" using True by (cases "subscriptions s ! k") auto
    have nx: "nextListeners s < length (arrays s)" using inv by (simp add: engine_inv_def)
    have e: "nextListeners ?s2 < length (arrays ?s2)" "pending ?s2 = pending s"
      using ensure_pending [of ?s1] nx by (auto simp: pending_def)
    have "?l \<in># mset (active s)"
      using True entry by (auto simp: active_def in_set_conv_nth intro!: image_eqI [where x = "(?l, True)"])
    then have mem: "?l \<in> set (pending s)"
      using inv mset_eq_setD [of "pending s" "active s"] by (simp add: engine_inv_def)
    have p': "pending s' = remove1 ?l (pending s)"
      using e mem True go(1) splice1_remove1 [of f "pending s"] f
      by (simp add: pending_def)
    have subs: "subscriptions s' = (subscriptions s)[k := (?l, False)]"
      using True go(1) by (simp add: ensure_fields)
    have act: "mset (active s') = mset (active s) - {#?l#}"
      unfolding active_def subs using True entry by (intro active_cancel) auto
    have funs: "\<forall>p \<in> set (subscriptions s'). \<exists>f. fst p = VFun f"
      using inv f unfolding subs engine_inv_def by (auto dest!: set_update_subset_insert [THEN subsetD])
    have inv': "engine_inv s'"
      using inv e funs act p' True go(1) unfolding engine_inv_def by simp
    have it: "iterating r L s'" if "iterating r L s" for r L
    proof -
      have "iterating r L ?s3"
        using that by (rule write_pending_iterating [where ?s1.0 = ?s1 and ?s2.0 = ?s2]) simp_all
      moreover have "nextListeners ?s3 \<noteq> r"
        using ensure_iterating [of r L ?s1] that by (simp add: iterating_def)
      ultimately show ?thesis using True go(1) by (simp add: iterating_def)
    qed
    have nb: "B \<notin> set (pending s) \<longrightarrow> B \<notin> set (pending s')"
      unfolding p' by (auto dest: notin_set_remove1)
    have i: "invoked s' = invoked s" using True go(1) by (simp add: ensure_fields)
    show ?thesis
      unfolding later_def using inv' it nb i True
      by (auto simp: subs nth_list_update)
  qed
qed


lemma ok_step_silent: "later B s s' \<Longrightarrow> invoked s' = invoked s \<Longrightarrow> ok_step B s s'"
  by (simp add: ok_step_def called_between_def)

lemma ok_step_inv: "ok_step B s s' \<Longrightarrow> engine_inv s'"
  by (simp add: ok_step_def later_def)

lemma run_cmd_ok:
  assumes st: "steady B D" and inv: "engine_inv s"
    and c: "c \<noteq> Subscribe B \<or> typeof B \<noteq> ''function''"
    and r: "run_cmd D g c s = Some (x, s')"
  shows "ok_step B s s'"
proof (cases c)
  case GetState
  then show ?thesis using r ok_step_refl [OF inv] by auto
next
  case (Dispatch a)
  then obtain y where "D a s = Some (y, s')"
    using r by (auto split: option.splits sum.splits)
  then show ?thesis using st inv by (auto simp: steady_def)
next
  case (Subscribe l)
  then obtain y where sub: "subscribe l s = (y, s')"
    using r by (auto split: prod.splits sum.splits)
  show ?thesis
  proof (cases "l = B")
    case True
    then have "typeof l \<noteq> ''function''" using c Subscribe by simp
    then have "s' = s" using sub by (simp add: subscribe_def)
    then show ?thesis using ok_step_refl [OF inv] by simp
  next
    case False
    then show ?thesis
      using subscribe_later [OF inv False sub] by (auto intro: ok_step_silent)
  qed
next
  case (Unsubscribe k)
  then obtain y where u: "unsubscribe k s = (y, s')"
    using r by (auto split: prod.splits sum.splits)
  show ?thesis
    using unsubscribe_later(1) [OF inv u] unsubscribe_later(2) [OF inv u]
    by (rule ok_step_silent)
next
  case (ReplaceReducer rr)
  show ?thesis
  proof (cases "typeof rr = ''function''")
    case False
    then show ?thesis using r ReplaceReducer ok_step_refl [OF inv]
      by (auto simp: replaceReducer_def)
  next
    case True
    obtain a h where nh: "new_object g [(''type'', VStr (REPLACE g))] (heap s) = (a, h)"
      by (cases "new_object g [(''type'', VStr (REPLACE g))] (heap s)")
    let ?s1 = "s\<lparr> currentReducer := rr, heap := h \<rparr>"
    from r ReplaceReducer True nh obtain y where d: "D (VObj a) ?s1 = Some (y, s')"
      by (auto simp: replaceReducer_def split: option.splits sum.splits)
    have l1: "later B s ?s1" using inv by (intro later_same_lists) auto
    then have o1: "ok_step B s ?s1" by (rule ok_step_silent) simp
    have "engine_inv ?s1" using o1 by (rule ok_step_inv)
    then have "ok_step B ?s1 s'" using st d by (auto simp: steady_def)
    then show ?thesis using o1 ok_step_trans by blast
  qed
qed

lemma run_prog_ok:
  assumes st: "steady B D"
  shows "engine_inv s \<Longrightarrow> \<not> may_call (Subscribe B) p \<or> typeof B \<noteq> ''function'' \<Longrightarrow>
     run_prog D g p s = Some (x, s') \<Longrightarrow> ok_step B s s'"
proof (induction p arbitrary: s)
  case (Return v)
  then show ?case using ok_step_refl by auto
next
  case (Throw e)
  then show ?case using ok_step_refl by auto
next
  case (Call c k)
  from Call.prems(3) obtain y s1 where c: "run_cmd D g c s = Some (y, s1)"
    and rest: "run_prog D g (k y) s1 = Some (x, s')"
    by (auto split: option.splits)
  have nc: "c \<noteq> Subscribe B \<or> typeof B \<noteq> ''function''"
    using Call.prems(2) by (auto intro: may_call.intros)
  have nk: "\<not> may_call (Subscribe B) (k y) \<or> typeof B \<noteq> ''function''"
    using Call.prems(2) by (auto intro: may_call.intros)
  have o1: "ok_step B s s1" using run_cmd_ok [OF st Call.prems(1) nc c] .
  have "ok_step B s1 s'" using Call.IH [OF rangeI ok_step_inv [OF o1] nk rest] .
  then show ?case using o1 ok_step_trans by blast
qed

lemma call_function_ok:
  assumes st: "steady B D" and ns: "never_subscribes code B \<or> typeof B \<noteq> ''function''"
    and inv: "engine_inv s"
    and r: "call_function D g code f args s = Some (x, s')"
  shows "ok_step B s s'"
proof (cases f)
  case (VFun i)
  then have y: "run_prog D g (code i args) s = Some (x, s')"
    using r by (simp add: call_function_def)
  have "\<not> may_call (Subscribe B) (code i args) \<or> typeof B \<noteq> ''function''"
    using ns by (auto simp: never_subscribes_def)
  then show ?thesis by (rule run_prog_ok [OF st inv _ y])
qed (use r ok_step_refl [OF inv] in \<open>auto simp: call_function_def\<close>)


lemma notify_ok:
  assumes st: "steady B D" and ns: "never_subscribes code B \<or> typeof B \<noteq> ''function''"
  shows "engine_inv s \<Longrightarrow> iterating r L s \<Longrightarrow> notify fuel D g code r i s = Some (x, s') \<Longrightarrow>
     later B s s'
     \<and> (B \<notin> set (pending s) \<and> B \<notin> set (drop i L) \<longrightarrow> B \<notin> set (called_between s s'))"
proof (induction fuel arbitrary: i s)
  case 0
  then show ?case by simp
next
  case (Suc fuel)
  have L: "arrays s ! r = L" using Suc.prems(2) by (simp add: iterating_def)
  show ?case
  proof (cases "i < length L")
    case False
    then have "s' = s" using Suc.prems(3) L by simp
    then show ?thesis using later_refl [OF Suc.prems(1)] by (simp add: called_between_def)
  next
    case True
    let ?l = "L ! i"
    let ?sa = "s\<lparr> invoked := invoked s @ [?l] \<rparr>"
    have la: "later B s ?sa" using Suc.prems(1) by (intro later_same_lists) auto
    have cba: "called_between s ?sa = [?l]" by (simp add: called_between_def)
    have inva: "engine_inv ?sa" using la by (simp add: later_def)
    from Suc.prems(3) True L obtain y sb where
      call: "call_function D g code ?l [] ?sa = Some (y, sb)"
      by (auto simp: Let_def split: option.splits)
    have ob: "ok_step B ?sa sb" using call_function_ok [OF st ns inva call] .
    have lb: "later B s sb" using la ob later_trans by (auto simp: ok_step_def)
    have cbb: "called_between s sb = ?l # called_between ?sa sb"
      using called_between_append [OF la] ob cba by (simp add: ok_step_def)
    have mem: "?l \<in> set (drop i L)"
      using True by (metis Cons_nth_drop_Suc list.set_intros(1))
    have nb: "B \<notin> set (called_between s sb) \<and> B \<notin> set (pending sb)"
      if "B \<notin> set (pending s)" "B \<notin> set (drop i L)"
    proof -
      have "B \<noteq> ?l" using that(2) mem by auto
      moreover have "B \<notin> set (pending ?sa)" using that(1) by (simp add: pending_def)
      ultimately show ?thesis using ob cbb by (auto simp: ok_step_def later_def)
    qed
    show ?thesis
    proof (cases y)
      case (Inl e)
      then have "s' = sb" using Suc.prems(3) True L call by (simp add: Let_def)
      then show ?thesis using lb nb by simp
    next
      case (Inr v)
      then have rest: "notify fuel D g code r (Suc i) sb = Some (x, s')"
        using Suc.prems(3) True L call by (simp add: Let_def)
      have invb: "engine_inv sb" using lb by (simp add: later_def)
      have itb: "iterating r L sb" using lb Suc.prems(2) by (simp add: later_def)
      from Suc.IH [OF invb itb rest]
      have l': "later B sb s'"
        and nb': "B \<notin> set (pending sb) \<and> B \<notin> set (drop (Suc i) L) \<longrightarrow>
                   B \<notin> set (called_between sb s')"
        by auto
      have l: "later B s s'" using lb l' by (rule later_trans)
      have "B \<notin> set (called_between s s')"
        if a: "B \<notin> set (pending s)" and b: "B \<notin> set (drop i L)"
      proof -
        have "B \<notin> set (drop (Suc i) L)"
          using b set_drop_subset_set_drop [of i "Suc i" L] by auto
        then show ?thesis
          using nb [OF a b] nb' called_between_append [OF lb l'] by simp
      qed
      then show ?thesis using l by simp
    qed
  qed
qed

lemma dispatch_body_ok:
  assumes st: "steady B D" and ns: "never_subscribes code B \<or> typeof B \<noteq> ''function''"
    and inv: "engine_inv s"
    and r: "dispatch_body fuel D g code a s = Some (x, s')"
  shows "ok_step B s s'"
proof (cases "accepted a \<and> \<not> isDispatching s")
  case False
  then have "s' = s" using r by (auto simp: dispatch_body_def accepted_def split: if_splits)
  then show ?thesis using ok_step_refl [OF inv] by simp
next
  case True
  let ?sb = "s\<lparr> isDispatching := True \<rparr>"
  have ob: "ok_step B s ?sb"
    using inv by (intro ok_step_silent later_same_lists) auto
  from r True obtain y s1 where
    call: "call_function D g code (currentReducer s) [currentState s, a] ?sb = Some (y, s1)"
    by (auto simp: dispatch_body_def accepted_def split: option.splits)
  have o1: "ok_step B ?sb s1"
    using call_function_ok [OF st ns ok_step_inv [OF ob] call] .
  have o01: "ok_step B s s1" using ob o1 by (rule ok_step_trans)
  have inv1: "engine_inv s1" using o1 by (rule ok_step_inv)
  show ?thesis
  proof (cases y)
    case (Inl e)
    then have s': "s' = s1\<lparr> isDispatching := False \<rparr>"
      using r True call by (simp add: dispatch_body_def accepted_def)
    have "ok_step B s1 s'"
      unfolding s' using inv1 by (intro ok_step_silent later_same_lists) auto
    then show ?thesis using o01 ok_step_trans by blast
  next
    case (Inr v)
    let ?s3 = "s1\<lparr> currentState := v, isDispatching := False,
                   currentListeners := Some (nextListeners s1) \<rparr>"
    from r True call Inr obtain z where
      n: "notify fuel D g code (nextListeners s1) 0 ?s3 = Some (z, s')"
      by (auto simp: dispatch_body_def accepted_def Let_def split: option.splits sum.splits)
    have o3: "ok_step B s1 ?s3"
      using inv1 by (intro ok_step_silent later_same_lists) auto
    have inv3: "engine_inv ?s3" using o3 by (rule ok_step_inv)
    have it: "iterating (nextListeners s1) (pending ?s3) ?s3"
      using inv3 by (simp add: iterating_def engine_inv_def pending_def)
    from notify_ok [OF st ns inv3 it n]
    have "ok_step B ?s3 s'" by (simp add: ok_step_def)
    then show ?thesis using o01 o3 ok_step_trans by blast
  qed
qed

lemma dispatch_steady:
  assumes ns: "never_subscribes code B \<or> typeof B \<noteq> ''function''"
  shows "steady B (dispatch n g code)"
proof (induction n)
  case 0
  then show ?case by (simp add: steady_def)
next
  case (Suc n)
  show ?case
    unfolding steady_def using dispatch_body_ok [OF Suc ns] by auto
qed


text \<open>The dispatching flag is the same before and after every operation.\<close>

lemma run_cmd_flag:
  assumes kf: "keeps_flag D" and r: "run_cmd D g c s = Some (y, s')"
  shows "isDispatching s' = isDispatching s"
proof (cases c)
  case GetState
  then show ?thesis using r by auto
next
  case (Dispatch a)
  then obtain x where "D a s = Some (x, s')" using r by (auto split: option.splits sum.splits)
  then show ?thesis using kf by (auto simp: keeps_flag_def)
next
  case (Subscribe l)
  then show ?thesis using r
    by (auto simp: subscribe_def Let_def ensure_fields split: if_splits prod.splits sum.splits)
next
  case (Unsubscribe k)
  then show ?thesis using r
    by (auto simp: unsubscribe_def Let_def case_prod_beta ensure_fields
        split: if_splits sum.splits)
next
  case (ReplaceReducer rr)
  show ?thesis
  proof (cases "typeof rr = ''function''")
    case False
    then show ?thesis using r ReplaceReducer by (auto simp: replaceReducer_def)
  next
    case True
    obtain a h where nh: "new_object g [(''type'', VStr (REPLACE g))] (heap s) = (a, h)"
      by (cases "new_object g [(''type'', VStr (REPLACE g))] (heap s)")
    from r ReplaceReducer True nh obtain x where
      "D (VObj a) (s\<lparr> currentReducer := rr, heap := h \<rparr>) = Some (x, s')"
      by (auto simp: replaceReducer_def split: option.splits sum.splits)
    then show ?thesis using kf by (fastforce simp: keeps_flag_def)
  qed
qed

lemma run_prog_flag:
  assumes kf: "keeps_flag D"
  shows "run_prog D g p s = Some (x, s') \<Longrightarrow> isDispatching s' = isDispatching s"
proof (induction p arbitrary: s)
  case (Call c k)
  from Call.prems obtain y s1 where c: "run_cmd D g c s = Some (y, s1)"
    and rest: "run_prog D g (k y) s1 = Some (x, s')"
    by (auto split: option.splits)
  show ?case using run_cmd_flag [OF kf c] Call.IH [OF rangeI rest] by simp
qed auto

lemma call_function_flag:
  "keeps_flag D \<Longrightarrow> call_function D g code f args s = Some (x, s') \<Longrightarrow>
     isDispatching s' = isDispatching s"
  by (cases f) (auto simp: call_function_def dest: run_prog_flag)

lemma notify_flag:
  assumes kf: "keeps_flag D"
  shows "notify fuel D g code r i s = Some (x, s') \<Longrightarrow> isDispatching s' = isDispatching s"
proof (induction fuel arbitrary: i s)
  case 0
  then show ?case by simp
next
  case (Suc fuel)
  show ?case
  proof (cases "i < length (arrays s ! r)")
    case False
    then show ?thesis using Suc.prems by simp
  next
    case True
    let ?sa = "s\<lparr> invoked := invoked s @ [arrays s ! r ! i] \<rparr>"
    from Suc.prems True obtain y sb where
      call: "call_function D g code (arrays s ! r ! i) [] ?sa = Some (y, sb)"
      by (auto simp: Let_def split: option.splits)
    have fb: "isDispatching sb = isDispatching s"
      using call_function_flag [OF kf call] by simp
    show ?thesis
    proof (cases y)
      case (Inl e)
      then show ?thesis using Suc.prems True call fb by (simp add: Let_def)
    next
      case (Inr v)
      then have "notify fuel D g code r (Suc i) sb = Some (x, s')"
        using Suc.prems True call by (simp add: Let_def)
      from Suc.IH [OF this] fb show ?thesis by simp
    qed
  qed
qed

lemma dispatch_body_flag:
  assumes kf: "keeps_flag D" and r: "dispatch_body fuel D g code a s = Some (x, s')"
  shows "isDispatching s' = isDispatching s"
proof (cases "accepted a \<and> \<not> isDispatching s")
  case False
  then have "s' = s" using r by (auto simp: dispatch_body_def accepted_def split: if_splits)
  then show ?thesis by simp
next
  case True
  from r True obtain y s1 where
    call: "call_function D g code (currentReducer s) [currentState s, a]
             (s\<lparr> isDispatching := True \<rparr>) = Some (y, s1)"
    by (auto simp: dispatch_body_def accepted_def split: option.splits)
  show ?thesis
  proof (cases y)
    case (Inl e)
    then show ?thesis using r True call by (auto simp: dispatch_body_def accepted_def)
  next
    case (Inr v)
    from r True call Inr obtain z where
      "notify fuel D g code (nextListeners s1) 0
         (s1\<lparr> currentState := v, isDispatching := False,
              currentListeners := Some (nextListeners s1) \<rparr>) = Some (z, s')"
      by (auto simp: dispatch_body_def accepted_def Let_def split: option.splits sum.splits)
    from notify_flag [OF kf this] True show ?thesis by simp
  qed
qed

lemma dispatch_flag: "keeps_flag (dispatch n g code)"
proof (induction n)
  case 0
  then show ?case by (simp add: keeps_flag_def)
next
  case (Suc n)
  show ?case
    unfolding keeps_flag_def using dispatch_body_flag [OF Suc] by auto
qed

text \<open>A function that is bound to call the \<open>k\<close>-th unsubscribe function, run while
  the store is idle, leaves the \<open>k\<close>-th subscription cancelled.\<close>

lemma unsubscribe_idle:
  assumes "\<not> isDispatching s" and "k < length (subscriptions s)"
    and "unsubscribe k s = (y, s1)"
  shows "k < length (subscriptions s1) \<and> \<not> snd (subscriptions s1 ! k)"
  using assms
  by (auto simp: unsubscribe_def Let_def case_prod_beta ensure_fields split: if_splits)

lemma run_prog_cancels:
  assumes st: "steady B D" and kf: "keeps_flag D"
  shows "must_call (Unsubscribe k) p \<Longrightarrow> engine_inv s \<Longrightarrow> \<not> isDispatching s \<Longrightarrow>
     k < length (subscriptions s) \<Longrightarrow>
     \<not> may_call (Subscribe B) p \<or> typeof B \<noteq> ''function'' \<Longrightarrow>
     run_prog D g p s = Some (x, s') \<Longrightarrow>
     k < length (subscriptions s') \<and> \<not> snd (subscriptions s' ! k)"
proof (induction "Unsubscribe k" p arbitrary: s rule: must_call.induct)
  case (must_now kont)
  from must_now.prems(5) obtain y s1 where
    c: "run_cmd D g (Unsubscribe k) s = Some (y, s1)"
    and rest: "run_prog D g (kont y) s1 = Some (x, s')"
    by (auto split: option.splits)
  from c obtain z where "unsubscribe k s = (z, s1)"
    by (auto split: prod.splits sum.splits)
  from unsubscribe_idle [OF must_now.prems(2,3) this]
  have off: "k < length (subscriptions s1)" "\<not> snd (subscriptions s1 ! k)" by auto
  have o1: "ok_step B s s1" using run_cmd_ok [OF st must_now.prems(1) _ c] by simp
  have nk: "\<not> may_call (Subscribe B) (kont y) \<or> typeof B \<noteq> ''function''"
    using must_now.prems(4) by (auto intro: may_call.intros)
  have "later B s1 s'"
    using run_prog_ok [OF st ok_step_inv [OF o1] nk rest] by (simp add: ok_step_def)
  then show ?case using later_subs [of B s1 s' k] off by auto
next
  case (must_later kont c')
  from must_later.prems(5) obtain y s1 where
    c: "run_cmd D g c' s = Some (y, s1)"
    and rest: "run_prog D g (kont y) s1 = Some (x, s')"
    by (auto split: option.splits)
  have nc: "c' \<noteq> Subscribe B \<or> typeof B \<noteq> ''function''"
    using must_later.prems(4) by (auto intro: may_call.intros)
  have nk: "\<not> may_call (Subscribe B) (kont y) \<or> typeof B \<noteq> ''function''"
    using must_later.prems(4) by (auto intro: may_call.intros)
  have o1: "ok_step B s s1" using run_cmd_ok [OF st must_later.prems(1) nc c] .
  have idle1: "\<not> isDispatching s1" using run_cmd_flag [OF kf c] must_later.prems(2) by simp
  have k1: "k < length (subscriptions s1)"
    using o1 must_later.prems(3) by (auto simp: ok_step_def later_def)
  show ?case
    using must_later.hyps(2) [OF ok_step_inv [OF o1] idle1 k1 nk rest] .
qed

lemma notify_all_called:
  assumes st: "steady B D" and ns: "never_subscribes code B \<or> typeof B \<noteq> ''function''"
    and kf: "keeps_flag D"
  shows "engine_inv s \<Longrightarrow> \<not> isDispatching s \<Longrightarrow> iterating r L s \<Longrightarrow>
     notify fuel D g code r i s = Some (Inr u, s') \<Longrightarrow>
     set (drop i L) \<subseteq> set (called_between s s')
     \<and> (k < length (subscriptions s) \<longrightarrow>
         (\<forall>j f. i \<le> j \<and> j < length L \<and> L ! j = VFun f \<and> must_call (Unsubscribe k) (code f [])
            \<longrightarrow> k < length (subscriptions s') \<and> \<not> snd (subscriptions s' ! k)))"
proof (induction fuel arbitrary: i s)
  case 0
  then show ?case by simp
next
  case (Suc fuel)
  have L: "arrays s ! r = L" using Suc.prems(3) by (simp add: iterating_def)
  show ?case
  proof (cases "i < length L")
    case False
    then show ?thesis by auto
  next
    case True
    let ?l = "L ! i"
    let ?sa = "s\<lparr> invoked := invoked s @ [?l] \<rparr>"
    have la: "later B s ?sa" using Suc.prems(1) by (intro later_same_lists) auto
    have cba: "called_between s ?sa = [?l]" by (simp add: called_between_def)
    have inva: "engine_inv ?sa" using la by (simp add: later_def)
    have idlea: "\<not> isDispatching ?sa" using Suc.prems(2) by simp
    from Suc.prems(4) True L obtain v sb where
      call: "call_function D g code ?l [] ?sa = Some (Inr v, sb)"
      and rest: "notify fuel D g code r (Suc i) sb = Some (Inr u, s')"
      by (auto simp: Let_def split: option.splits sum.splits)
    have ob: "ok_step B ?sa sb" using call_function_ok [OF st ns inva call] .
    have lb: "later B s sb" using la ob later_trans by (auto simp: ok_step_def)
    have invb: "engine_inv sb" using lb by (simp add: later_def)
    have idleb: "\<not> isDispatching sb" using call_function_flag [OF kf call] idlea by simp
    have itb: "iterating r L sb" using lb Suc.prems(3) by (simp add: later_def)
    have l': "later B sb s'" using notify_ok [OF st ns invb itb rest] by simp
    from Suc.IH [OF invb idleb itb rest]
    have ih1: "set (drop (Suc i) L) \<subseteq> set (called_between sb s')"
      and ih2: "\<And>j f. k < length (subscriptions sb) \<Longrightarrow> Suc i \<le> j \<Longrightarrow> j < length L \<Longrightarrow>
                 L ! j = VFun f \<Longrightarrow> must_call (Unsubscribe k) (code f []) \<Longrightarrow>
                 k < length (subscriptions s') \<and> \<not> snd (subscriptions s' ! k)"
      by auto
    have cb: "called_between s s' = ?l # called_between ?sa sb @ called_between sb s'"
      using called_between_append [OF lb l'] called_between_append [OF la, of sb] ob cba
      by (simp add: ok_step_def)
    have one: "set (drop i L) \<subseteq> set (called_between s s')"
      using ih1 True by (auto simp: cb Cons_nth_drop_Suc [symmetric])
    have two: "k < length (subscriptions s') \<and> \<not> snd (subscriptions s' ! k)"
      if kk: "k < length (subscriptions s)"
        and j: "i \<le> j" "j < length L" "L ! j = VFun f" "must_call (Unsubscribe k) (code f [])"
      for j f
    proof (cases "j = i")
      case False
      have "k < length (subscriptions sb)" using later_subs(1) [OF lb kk] .
      then show ?thesis using ih2 [of j f] j False by simp
    next
      case True
      then have lf: "?l = VFun f" using j(3) by simp
      from call have run: "run_prog D g (code f []) ?sa = Some (Inr v, sb)"
        by (simp add: call_function_def lf)
      have nsb: "\<not> may_call (Subscribe B) (code f []) \<or> typeof B \<noteq> ''function''"
        using ns by (auto simp: never_subscribes_def)
      have ka: "k < length (subscriptions ?sa)" using kk by simp
      from run_prog_cancels [OF st kf j(4) inva idlea ka nsb run]
      have "k < length (subscriptions sb)" "\<not> snd (subscriptions sb ! k)" by auto
      then show ?thesis using later_subs [OF l', of k] by auto
    qed
    show ?thesis using one two by blast
  qed
qed

text \<open>Every operation of the store keeps it well formed, and the store that
  \<open>createStore\<close> builds without an enhancer is well formed.\<close>

lemma dispatch_keeps_inv:
  assumes "engine_inv s" and "dispatch n g code a s = Some (x, s')"
  shows "engine_inv s'"
proof -
  have "steady VNull (dispatch n g code)" by (rule dispatch_steady) simp
  then show ?thesis using assms by (auto simp: steady_def ok_step_def later_def)
qed

lemma subscribe_keeps_inv:
  assumes "engine_inv s" and "subscribe l s = (x, s')"
  shows "engine_inv s'"
proof (cases "typeof l = ''function''")
  case True
  then have "l \<noteq> VNull" by auto
  from subscribe_later(1) [OF assms(1) this assms(2)] show ?thesis by (simp add: later_def)
next
  case False
  then show ?thesis using assms by (simp add: subscribe_def)
qed

lemma unsubscribe_keeps_inv:
  assumes "engine_inv s" and "unsubscribe k s = (x, s')"
  shows "engine_inv s'"
  using unsubscribe_later(1) [OF assms, of VNull] by (simp add: later_def)

lemma createStore_inv:
  assumes "createStore fuel enhance g code reducer preloaded VUndefined arg3 h = Some (Inr s)"
    and "typeof preloaded \<noteq> ''function''"
  shows "engine_inv s"
proof -
  obtain a h' where nh: "new_object g [(''type'', VStr (INIT g))] h = (a, h')"
    by (cases "new_object g [(''type'', VStr (INIT g))] h")
  let ?s0 = "\<lparr> currentReducer = reducer, currentState = preloaded, currentListeners = Some 0,
               nextListeners = 0, isDispatching = False, arrays = [[]], subscriptions = [],
               invoked = [], heap = h' \<rparr>"
  have inv0: "engine_inv ?s0" by (simp add: engine_inv_def pending_def active_def)
  from assms nh obtain r where "dispatch fuel g code (VObj a) ?s0 = Some (Inr r, s)"
    by (auto simp: createStore_def Let_def split: if_splits option.splits sum.splits)
  then show ?thesis using dispatch_keeps_inv [OF inv0] by simp
qed

text \<open>
  C6.  Let the store be well formed, let \<open>B\<close> be subscribed exactly once (by the
  \<open>k\<close>-th call of \<open>subscribe\<close>) and let no function of the application subscribe \<open>B\<close>
  again.  If a pending listener calls the \<open>k\<close>-th unsubscribe function on each of its
  runs and dispatch N returns, then \<open>B\<close> was still called during dispatch N, and \<open>B\<close>
  is not called during dispatch N+1, whatever its outcome.  The transition function and
  the listeners may otherwise call the store as they like: subscribe and unsubscribe
  other listeners, dispatch, catch what these calls throw.
\<close>

theorem listener_snapshot:
  assumes ns: "never_subscribes code B"
    and inv: "engine_inv s"
    and sub: "k < length (subscriptions s)" "subscriptions s ! k = (B, True)"
    and only: "\<forall>k'. k' < length (subscriptions s) \<and> subscriptions s ! k' = (B, True) \<longrightarrow> k' = k"
    and A: "VFun fa \<in> set (pending s)" "must_call (Unsubscribe k) (code fa [])"
    and N: "dispatch n g code a s = Some (Inr v, s1)"
    and N1: "dispatch m g code a2 s1 = Some (x, s2)"
  shows "B \<in> set (called_between s s1) \<and> B \<notin> set (called_between s1 s2)"
proof -
  have ns': "never_subscribes code B \<or> typeof B \<noteq> ''function''" using ns by simp
  obtain n' where n: "n = Suc n'" using N by (cases n) auto
  let ?D = "dispatch n' g code"
  let ?sb = "s\<lparr> isDispatching := True \<rparr>"
  have st: "steady B ?D" using dispatch_steady [OF ns'] .
  from N n obtain st' sr u where
    call: "call_function ?D g code (currentReducer s) [currentState s, a] ?sb = Some (Inr st', sr)"
    and loop: "notify (Suc n') ?D g code (nextListeners sr) 0
                 (sr\<lparr> currentState := st', isDispatching := False,
                       currentListeners := Some (nextListeners sr) \<rparr>) = Some (Inr u, s1)"
    by (auto simp: dispatch_body_def Let_def split: if_splits option.splits sum.splits)
  let ?s3 = "sr\<lparr> currentState := st', isDispatching := False,
                 currentListeners := Some (nextListeners sr) \<rparr>"
  have fr: "busy_frame ?sb sr" using call_function_busy [of ?sb, OF _ call] by simp
  have l3: "later B s ?s3"
    using inv fr by (intro later_same_lists) (auto simp: busy_frame_def)
  have inv3: "engine_inv ?s3" using l3 by (simp add: later_def)
  have p3: "pending ?s3 = pending s" "nextListeners sr = nextListeners s" "invoked ?s3 = invoked s"
    using fr by (auto simp: busy_frame_def pending_def)
  have it: "iterating (nextListeners sr) (pending s) ?s3"
    using inv3 p3 by (simp add: iterating_def engine_inv_def pending_def)
  have idle3: "\<not> isDispatching ?s3" by simp
  have k3: "k < length (subscriptions ?s3)" using sub(1) fr by (simp add: busy_frame_def)
  from notify_all_called [OF st ns' dispatch_flag inv3 idle3 it loop, of k] k3
  have all: "set (pending s) \<subseteq> set (called_between ?s3 s1)"
    and off: "\<And>j f. j < length (pending s) \<Longrightarrow> pending s ! j = VFun f \<Longrightarrow>
                 must_call (Unsubscribe k) (code f []) \<Longrightarrow>
                 k < length (subscriptions s1) \<and> \<not> snd (subscriptions s1 ! k)"
    by auto
  have cb: "called_between ?s3 s1 = called_between s s1"
    using p3 by (simp add: called_between_def)
  have "B \<in> set (active s)"
    using sub by (auto simp: active_def in_set_conv_nth intro!: image_eqI [where x = "(B, True)"])
  then have "B \<in> set (pending s)"
    using inv mset_eq_setD [of "pending s" "active s"] by (simp add: engine_inv_def)
  then have first: "B \<in> set (called_between s s1)" using all cb by auto
  from A(1) obtain j where j: "j < length (pending s)" "pending s ! j = VFun fa"
    by (auto simp: in_set_conv_nth)
  have koff: "k < length (subscriptions s1)" "\<not> snd (subscriptions s1 ! k)"
    using off [OF j A(2)] by auto
  have l1: "later B s s1"
    using dispatch_steady [OF ns', of n g] inv N by (auto simp: steady_def ok_step_def)
  have inv1: "engine_inv s1" using l1 by (simp add: later_def)
  have "B \<notin> set (active s1)"
  proof
    assume "B \<in> set (active s1)"
    then obtain k' where k': "k' < length (subscriptions s1)" "subscriptions s1 ! k' = (B, True)"
      by (auto simp: active_def in_set_conv_nth)
    show False
    proof (cases "k' < length (subscriptions s)")
      case True
      from later_subs [OF l1 True] k'
      have "fst (subscriptions s ! k') = B" "snd (subscriptions s ! k')" by auto
      then have "subscriptions s ! k' = (B, True)" by (cases "subscriptions s ! k'") auto
      then have "k' = k" using only True by blast
      then show False using koff k' by simp
    next
      case False
      then have "fst (subscriptions s1 ! k') \<noteq> B" using l1 k'(1) by (simp add: later_def)
      then show False using k'(2) by simp
    qed
  qed
  then have "B \<notin> set (pending s1)"
    using inv1 mset_eq_setD [of "pending s1" "active s1"] by (simp add: engine_inv_def)
  moreover have "ok_step B s1 s2"
    using dispatch_steady [OF ns', of m g] inv1 N1 by (auto simp: steady_def)
  ultimately have "B \<notin> set (called_between s1 s2)" by (simp add: ok_step_def)
  then show ?thesis using first by simp
qed

theorem listener_snapshot_witness:
  "dispatch 3 ex_globals ex_code (ex_action ''INCREMENT'') ex_store_two
     = Some (Inr (ex_action ''INCREMENT''), ex_store_first)
   \<and> dispatch 3 ex_globals ex_code (ex_action ''OTHER'') ex_store_first
     = Some (Inr (ex_action ''OTHER''), ex_store_second)
   \<and> VFun 2 \<in> set (called_between ex_store_two ex_store_first)
   \<and> VFun 2 \<notin> set (called_between ex_store_first ex_store_second)"
proof -
  have sub: "1 < length (subscriptions ex_store_two)"
    "subscriptions ex_store_two ! 1 = (VFun 2, True)"
    by (simp_all add: ex_store_two_def)
  have only: "\<forall>k'. k' < length (subscriptions ex_store_two)
               \<and> subscriptions ex_store_two ! k' = (VFun 2, True) \<longrightarrow> k' = 1"
    by (auto simp: ex_store_two_def nth_Cons' split: if_splits)
  have A: "VFun 1 \<in> set (pending ex_store_two)" "must_call (Unsubscribe 1) (ex_code 1 [])"
    by (simp_all add: pending_def ex_store_two_def ex_code_def must_call.intros)
  from listener_snapshot [OF ex_never ex_two_inv sub only A ex_first ex_second]
  show ?thesis using ex_first ex_second by simp
qed

section \<open>Dispatch returns the action\<close>

text \<open>A calm function, run in an idle store that is well formed, returns; the store stays
  idle and well formed, its state and the record of calls are as before, and running
  loops are kept.\<close>

lemma subscribe_frame:
  "subscribe l s = (x, s') \<Longrightarrow>
     isDispatching s' = isDispatching s \<and> currentState s' = currentState s"
  by (auto simp: subscribe_def Let_def ensureCanMutateNextListeners_def split: if_splits)

lemma unsubscribe_frame:
  "unsubscribe k s = (x, s') \<Longrightarrow>
     isDispatching s' = isDispatching s \<and> currentState s' = currentState s"
  by (auto simp: unsubscribe_def Let_def case_prod_beta ensureCanMutateNextListeners_def
      split: if_splits)

lemma calm_mono: "calm n p \<Longrightarrow> n \<le> m \<Longrightarrow> calm m p"
proof (induction arbitrary: m rule: calm.induct)
  case (calm_Return n v)
  show ?case by (rule calm.calm_Return)
next
  case (calm_GetState n k)
  show ?case using calm_GetState.IH calm_GetState.prems by (intro calm.calm_GetState) auto
next
  case (calm_Subscribe l n k)
  show ?case
    using calm_Subscribe.hyps(1) calm_Subscribe.IH calm_Subscribe.prems
    by (intro calm.calm_Subscribe) auto
next
  case (calm_Unsubscribe j n k)
  show ?case
    using calm_Unsubscribe.hyps(1) calm_Unsubscribe.IH calm_Unsubscribe.prems
    by (intro calm.calm_Unsubscribe) auto
qed

lemma run_prog_calm:
  "calm n p \<Longrightarrow> engine_inv s \<Longrightarrow> \<not> isDispatching s \<Longrightarrow> n \<le> length (subscriptions s) \<Longrightarrow>
     \<exists>v s'. run_prog D g p s = Some (Inr v, s')
       \<and> later VNull s s' \<and> \<not> isDispatching s'
       \<and> invoked s' = invoked s \<and> currentState s' = currentState s"
proof (induction arbitrary: s rule: calm.induct)
  case (calm_Return n v)
  then show ?case by (simp add: later_refl)
next
  case (calm_GetState n k)
  have "run_cmd D g GetState s = Some (Gave (currentState s), s)"
    using calm_GetState.prems(2) by (simp add: getState_def)
  moreover obtain v s' where "run_prog D g (k (Gave (currentState s))) s = Some (Inr v, s')"
    "later VNull s s'" "\<not> isDispatching s'" "invoked s' = invoked s"
    "currentState s' = currentState s"
    using calm_GetState.IH [OF calm_GetState.prems] by blast
  ultimately show ?case by auto
next
  case (calm_Subscribe l n k)
  let ?h = "length (subscriptions s)"
  obtain s1 where sub: "subscribe l s = (Inr ?h, s1)"
    using calm_Subscribe.hyps(1) calm_Subscribe.prems(2) by (simp add: subscribe_def Let_def)
  have ne: "l \<noteq> VNull" using calm_Subscribe.hyps(1) by auto
  have l1: "later VNull s s1" and i1: "invoked s1 = invoked s"
    using subscribe_later [OF calm_Subscribe.prems(1) ne sub] by auto
  have f1: "\<not> isDispatching s1" "currentState s1 = currentState s"
    using subscribe_frame [OF sub] calm_Subscribe.prems(2) by auto
  have len1: "length (subscriptions s1) = Suc ?h"
    using sub calm_Subscribe.hyps(1) calm_Subscribe.prems(2)
    by (auto simp: subscribe_def Let_def ensure_fields)
  have inv1: "engine_inv s1" using l1 by (simp add: later_def)
  obtain v s' where run: "run_prog D g (k (Handle ?h)) s1 = Some (Inr v, s')"
    and rest: "later VNull s1 s'" "\<not> isDispatching s'" "invoked s' = invoked s1"
      "currentState s' = currentState s1"
    using calm_Subscribe.IH [OF calm_Subscribe.prems(3) inv1 f1(1)] len1 by auto
  have "run_prog D g (Call (Subscribe l) k) s = Some (Inr v, s')"
    using sub run by simp
  then show ?case using later_trans [OF l1 rest(1)] rest i1 f1 by auto
next
  case (calm_Unsubscribe j n k)
  have j: "j < length (subscriptions s)" using calm_Unsubscribe.hyps(1) calm_Unsubscribe.prems(3) by simp
  obtain s1 where un: "unsubscribe j s = (Inr VUndefined, s1)"
    using j calm_Unsubscribe.prems(2)
    by (cases "unsubscribe j s")
      (auto simp: unsubscribe_def Let_def case_prod_beta split: if_splits)
  have l1: "later VNull s s1" and i1: "invoked s1 = invoked s"
    using unsubscribe_later [OF calm_Unsubscribe.prems(1) un] by auto
  have f1: "\<not> isDispatching s1" "currentState s1 = currentState s"
    using unsubscribe_frame [OF un] calm_Unsubscribe.prems(2) by auto
  have inv1: "engine_inv s1" using l1 by (simp add: later_def)
  have len1: "n \<le> length (subscriptions s1)"
    using l1 calm_Unsubscribe.prems(3) by (auto simp: later_def)
  obtain v s' where run: "run_prog D g (k (Gave VUndefined)) s1 = Some (Inr v, s')"
    and rest: "later VNull s1 s'" "\<not> isDispatching s'" "invoked s' = invoked s1"
      "currentState s' = currentState s1"
    using calm_Unsubscribe.IH [OF inv1 f1(1) len1] by auto
  have "run_prog D g (Call (Unsubscribe j) k) s = Some (Inr v, s')"
    using un run by simp
  then show ?case using later_trans [OF l1 rest(1)] rest i1 f1 by auto
qed

lemma notify_calm:
  "\<forall>l \<in> set (drop i L). \<exists>f. l = VFun f \<and> calm n (code f []) \<Longrightarrow>
     engine_inv s \<Longrightarrow> \<not> isDispatching s \<Longrightarrow> n \<le> length (subscriptions s) \<Longrightarrow>
     iterating r L s \<Longrightarrow> length L - i < fuel \<Longrightarrow>
     \<exists>s'. notify fuel D g code r i s = Some (Inr (), s')
       \<and> invoked s' = invoked s @ drop i L \<and> \<not> isDispatching s'
       \<and> currentState s' = currentState s \<and> engine_inv s'"
proof (induction fuel arbitrary: i s)
  case 0
  then show ?case by simp
next
  case (Suc fuel)
  have L: "arrays s ! r = L" using Suc.prems(5) by (simp add: iterating_def)
  show ?case
  proof (cases "i < length L")
    case False
    then show ?thesis using L Suc.prems by simp
  next
    case True
    let ?l = "L ! i"
    let ?sa = "s\<lparr> invoked := invoked s @ [?l] \<rparr>"
    have mem: "?l \<in> set (drop i L)"
      using True by (metis Cons_nth_drop_Suc list.set_intros(1))
    then obtain f where f: "?l = VFun f" "calm n (code f [])" using Suc.prems(1) by blast
    have la: "later VNull s ?sa" using Suc.prems(2) by (intro later_same_lists) auto
    have inva: "engine_inv ?sa" using la by (simp add: later_def)
    have ita: "iterating r L ?sa" using la Suc.prems(5) by (simp add: later_def)
    have idlea: "\<not> isDispatching ?sa" "n \<le> length (subscriptions ?sa)"
      using Suc.prems(3,4) by simp_all
    from run_prog_calm [OF f(2) inva idlea, of D g]
    obtain v sb where run: "run_prog D g (code f []) ?sa = Some (Inr v, sb)"
      and lb: "later VNull ?sa sb" and idleb: "\<not> isDispatching sb"
      and ib: "invoked sb = invoked ?sa" and cb: "currentState sb = currentState ?sa"
      by blast
    have call: "call_function D g code ?l [] ?sa = Some (Inr v, sb)"
      using run by (simp add: call_function_def f(1))
    have invb: "engine_inv sb" using lb by (simp add: later_def)
    have itb: "iterating r L sb" using lb ita by (simp add: later_def)
    have lenb: "n \<le> length (subscriptions sb)" using lb idlea(2) by (auto simp: later_def)
    have rest: "\<forall>l \<in> set (drop (Suc i) L). \<exists>f. l = VFun f \<and> calm n (code f [])"
      using Suc.prems(1) set_drop_subset_set_drop [of i "Suc i" L] by auto
    have fuel: "length L - Suc i < fuel" using Suc.prems(6) True by simp
    from Suc.IH [OF rest invb idleb lenb itb fuel]
    obtain s' where n: "notify fuel D g code r (Suc i) sb = Some (Inr (), s')"
      and p: "invoked s' = invoked sb @ drop (Suc i) L" "\<not> isDispatching s'"
        "currentState s' = currentState sb" "engine_inv s'"
      by blast
    have "notify (Suc fuel) D g code r i s = Some (Inr (), s')"
      using True L call n by (simp add: Let_def)
    moreover have "invoked s' = invoked s @ drop i L"
      using p(1) ib True by (simp add: Cons_nth_drop_Suc [symmetric])
    ultimately show ?thesis using p cb by auto
  qed
qed

text \<open>
  C5.  Whenever \<open>dispatch\<close> returns, it returns the action it was handed, whatever the
  transition function and the listeners did.  It returns exactly when the action is
  accepted, the store is idle, the transition function returns and the notification of
  the listeners returns.  In particular it returns, for an accepted action dispatched
  on an idle, well-formed store, when the transition function returns and the pending
  listeners are calm: the listeners may read the state, subscribe and unsubscribe.  The
  state that the transition function returned is then the state of the store, the
  store is idle again, and every pending listener has been called once, in order.
\<close>

theorem dispatch_returns_action:
  "(dispatch n g code a s = Some (Inr v, s') \<longrightarrow> v = a)
   \<and> (accepted a \<and> \<not> isDispatching s \<and> engine_inv s
        \<and> call_function (dispatch n g code) g code (currentReducer s) [currentState s, a]
              (s\<lparr> isDispatching := True \<rparr>) = Some (Inr st, s1)
        \<and> (\<forall>l \<in> set (pending s). \<exists>f. l = VFun f \<and> calm (length (subscriptions s)) (code f []))
        \<and> length (pending s) \<le> n
      \<longrightarrow> (\<exists>s2. dispatch (Suc n) g code a s = Some (Inr a, s2)
             \<and> currentState s2 = st \<and> getState s2 = Inr st \<and> \<not> isDispatching s2
             \<and> called_between s s2 = pending s))
   \<and> (dispatch (Suc n) g code a s = Some (Inr v, s') \<longleftrightarrow>
        v = a \<and> accepted a \<and> \<not> isDispatching s
        \<and> (\<exists>st s1.
              call_function (dispatch n g code) g code (currentReducer s) [currentState s, a]
                (s\<lparr> isDispatching := True \<rparr>) = Some (Inr st, s1)
            \<and> notify (Suc n) (dispatch n g code) g code (nextListeners s1) 0
                (s1\<lparr> currentState := st, isDispatching := False,
                     currentListeners := Some (nextListeners s1) \<rparr>) = Some (Inr (), s')))"
proof -
  have one: "dispatch n g code a s = Some (Inr v, s') \<longrightarrow> v = a"
    by (cases n) (auto simp: dispatch_body_def Let_def split: if_splits option.splits sum.splits)
  have two: "\<exists>s2. dispatch (Suc n) g code a s = Some (Inr a, s2)
             \<and> currentState s2 = st \<and> getState s2 = Inr st \<and> \<not> isDispatching s2
             \<and> called_between s s2 = pending s"
    if acc: "accepted a" and idle: "\<not> isDispatching s" and inv: "engine_inv s"
      and red: "call_function (dispatch n g code) g code (currentReducer s) [currentState s, a]
                  (s\<lparr> isDispatching := True \<rparr>) = Some (Inr st, s1)"
      and calm: "\<forall>l \<in> set (pending s). \<exists>f. l = VFun f \<and> calm (length (subscriptions s)) (code f [])"
      and len: "length (pending s) \<le> n"
  proof -
    let ?s3 = "s1\<lparr> currentState := st, isDispatching := False,
                   currentListeners := Some (nextListeners s1) \<rparr>"
    have fr: "busy_frame (s\<lparr> isDispatching := True \<rparr>) s1"
      using call_function_busy [OF _ red] by simp
    have same: "arrays s1 = arrays s" "nextListeners s1 = nextListeners s"
      "subscriptions s1 = subscriptions s" "invoked s1 = invoked s"
      using fr by (simp_all add: busy_frame_def)
    have l3: "later VNull s ?s3"
      using inv same by (intro later_same_lists) auto
    have inv3: "engine_inv ?s3" using l3 by (simp add: later_def)
    have p3: "pending ?s3 = pending s" using same by (simp add: pending_def)
    have it: "iterating (nextListeners s1) (pending s) ?s3"
      using inv3 p3 by (simp add: iterating_def engine_inv_def pending_def)
    have cl: "\<forall>l \<in> set (drop 0 (pending s)).
                \<exists>f. l = VFun f \<and> calm (length (subscriptions s)) (code f [])"
      using calm by simp
    have "\<exists>s2. notify (Suc n) (dispatch n g code) g code (nextListeners s1) 0 ?s3 = Some (Inr (), s2)
       \<and> invoked s2 = invoked ?s3 @ drop 0 (pending s) \<and> \<not> isDispatching s2
       \<and> currentState s2 = currentState ?s3 \<and> engine_inv s2"
      using len same
      by (intro notify_calm [where code = code and n = "length (subscriptions s)"
            and i = 0 and L = "pending s", OF cl inv3 _ _ it]) auto
    then obtain s2 where
      n: "notify (Suc n) (dispatch n g code) g code (nextListeners s1) 0 ?s3 = Some (Inr (), s2)"
      and p: "invoked s2 = invoked ?s3 @ drop 0 (pending s)" "\<not> isDispatching s2"
        "currentState s2 = currentState ?s3"
      by blast
    have d: "dispatch (Suc n) g code a s = Some (Inr a, s2)"
      using acc idle red n by (simp add: dispatch_body_def accepted_def Let_def del: notify.simps)
    have "called_between s s2 = pending s"
      using p(1) same by (simp add: called_between_def)
    then show ?thesis using d p by (simp add: getState_def)
  qed
  have three: "dispatch (Suc n) g code a s = Some (Inr v, s') \<longleftrightarrow>
        v = a \<and> accepted a \<and> \<not> isDispatching s
        \<and> (\<exists>st s1.
              call_function (dispatch n g code) g code (currentReducer s) [currentState s, a]
                (s\<lparr> isDispatching := True \<rparr>) = Some (Inr st, s1)
            \<and> notify (Suc n) (dispatch n g code) g code (nextListeners s1) 0
                (s1\<lparr> currentState := st, isDispatching := False,
                     currentListeners := Some (nextListeners s1) \<rparr>) = Some (Inr (), s'))"
    by (auto simp: dispatch_body_def accepted_def Let_def simp del: notify.simps
        split: if_splits option.splits sum.splits)
  show ?thesis using one two three by blast
qed

lemma ex_watched_inv: "engine_inv ex_store_watched"
  by (simp add: engine_inv_def ex_store_watched_def ex_store_def pending_def active_def)

theorem dispatch_returns_action_witness:
  "\<exists>s2. dispatch 2 ex_globals ex_code (ex_action ''INCREMENT'') ex_store_watched
           = Some (Inr (ex_action ''INCREMENT''), s2)
      \<and> currentState s2 = VNum 1 \<and> getState s2 = Inr (VNum 1) \<and> \<not> isDispatching s2
      \<and> called_between ex_store_watched s2 = [VFun 3]"
proof -
  have idle: "\<not> isDispatching ex_store_watched"
    by (simp add: ex_store_watched_def ex_store_def)
  have red: "call_function (dispatch 1 ex_globals ex_code) ex_globals ex_code
      (currentReducer ex_store_watched) [currentState ex_store_watched, ex_action ''INCREMENT'']
      (ex_store_watched\<lparr> isDispatching := True \<rparr>)
      = Some (Inr (VNum 1), ex_store_watched\<lparr> isDispatching := True \<rparr>)"
    by (simp add: call_function_def ex_store_watched_def ex_store_def ex_code_def ex_action_def
        ex_Object_prototype_def)
  have "calm 1 (ex_code 3 [])"
    by (auto simp: ex_code_def intro!: calm.intros)
  then have calm: "\<forall>l \<in> set (pending ex_store_watched).
      \<exists>f. l = VFun f \<and> calm (length (subscriptions ex_store_watched)) (ex_code f [])"
    by (simp add: pending_def ex_store_watched_def ex_store_def)
  have len: "length (pending ex_store_watched) \<le> 1"
    by (simp add: pending_def ex_store_watched_def ex_store_def)
  have p: "pending ex_store_watched = [VFun 3]"
    by (simp add: pending_def ex_store_watched_def ex_store_def)
  from dispatch_returns_action [where n = 1 and g = ex_globals and code = ex_code
      and a = "ex_action ''INCREMENT''" and s = ex_store_watched and st = "VNum 1"
      and ?s1.0 = "ex_store_watched\<lparr> isDispatching := True \<rparr>" and v = VNull
      and s' = ex_store_watched]
    ex_accepted idle ex_watched_inv red calm len
  show ?thesis by (simp add: p numeral_2_eq_2)
qed

end
